theory Spec2Isabelle
  imports Main
begin

section \<open>Python values\<close>

text \<open>
  A Python \<open>str\<close> is a sequence of code points and a \<open>bytes\<close> object a sequence of
  numbers below 256; both are lists of naturals here.  A literal of the source is written
  \<open>lit ''...''\<close>.
\<close>

type_synonym codepoint = nat
type_synonym byte = nat
type_synonym pystr = "codepoint list"

definition lit :: "string \<Rightarrow> pystr" where
  "lit s = map of_char s"

text \<open>The exceptions the modelled code can raise.\<close>

datatype error =
    KeyError
  | TypeError
  | AttributeError
  | AssertionError
  | UnicodeEncodeError
  | UnicodeDecodeError
  | IndexError
  | OverflowError
  | InterfaceError
  | DatabaseError

text \<open>
  A Python \<open>float\<close> is an IEEE 754 double: NaN, an infinity, or a finite number
  \<open>m * 2 ^ e\<close>.  A finite float is kept with \<open>m\<close> odd, and zero as \<open>Finite 0 0\<close>, so that
  two finite floats are the same number exactly when they are the same value of the type;
  the sign of a zero is not kept.
\<close>

datatype pyfloat = Finite int int | PInf | NInf | NaN

text \<open>The number of binary digits of a positive integer.\<close>

function bitlen :: "int \<Rightarrow> int" where
  "bitlen n = (if n \<le> 0 then 0 else 1 + bitlen (n div 2))"
  by auto

termination bitlen
  by (relation "measure nat") auto

declare bitlen.simps [simp del]

text \<open>A positive integer as an odd number times a power of two: the odd number and the exponent.\<close>

function odd_part :: "int \<Rightarrow> int \<times> int" where
  "odd_part n =
     (if n \<le> 0 \<or> odd n then (n, 0)
      else (case odd_part (n div 2) of (m, k) \<Rightarrow> (m, k + 1)))"
  by auto

termination odd_part
  by (relation "measure nat") auto

declare odd_part.simps [simp del]

text \<open>The float \<open>m * 2 ^ e\<close>, and the value of a finite float as a fraction.\<close>

definition mk_float :: "int \<Rightarrow> int \<Rightarrow> pyfloat" where
  "mk_float m e =
     (if m = 0 then Finite 0 0
      else (case odd_part \<bar>m\<bar> of (a, k) \<Rightarrow> Finite (sgn m * a) (e + k)))"

definition frac_of :: "int \<Rightarrow> int \<Rightarrow> int \<times> int" where
  "frac_of m e = (if 0 \<le> e then (m * 2 ^ nat e, 1) else (m, 2 ^ nat (- e)))"

text \<open>
  Rounding to nearest, ties to even, as the floating point unit does it after every
  operation.  \<open>round_half_even p q\<close> is the integer nearest to \<open>p / q\<close> for \<open>p\<close> not
  negative and \<open>q\<close> positive.  \<open>round53 p q\<close> is the number \<open>n * 2 ^ e\<close> with at most 53
  binary digits in \<open>n\<close> and \<open>e\<close> not below -1074 that is nearest to \<open>p / q\<close>, for \<open>q\<close>
  positive, and \<open>round_double p q\<close> the float it makes: an infinity from \<open>2 ^ 1024\<close> on.
  This is also the float that \<open>json.load\<close> reads from the decimal numeral of \<open>p / q\<close>.
\<close>

definition round_half_even :: "int \<Rightarrow> int \<Rightarrow> int" where
  "round_half_even p q =
     (let n = p div q; r = p mod q
      in if 2 * r < q then n else if q < 2 * r then n + 1 else if even n then n else n + 1)"

definition scaled :: "int \<Rightarrow> int \<Rightarrow> int \<Rightarrow> int \<times> int" where
  "scaled a q e = (if 0 \<le> e then (a, q * 2 ^ nat e) else (a * 2 ^ nat (- e), q))"

definition round53 :: "int \<Rightarrow> int \<Rightarrow> int \<times> int" where
  "round53 p q =
     (if p = 0 then (0, 0)
      else
        let a = \<bar>p\<bar>;
            e0 = bitlen a - bitlen q - 53;
            e1 = (case scaled a q (e0 + 1) of (x, y) \<Rightarrow> if y * 2 ^ 52 \<le> x then e0 + 1 else e0);
            e = max e1 (- 1074)
        in (case scaled a q e of (x, y) \<Rightarrow> (sgn p * round_half_even x y, e)))"

definition round_double :: "int \<Rightarrow> int \<Rightarrow> pyfloat" where
  "round_double p q =
     (case round53 p q of (n, e) \<Rightarrow>
        if 0 \<le> e \<and> 2 ^ 1024 \<le> \<bar>n\<bar> * 2 ^ nat e then (if 0 < n then PInf else NInf)
        else mk_float n e)"

text \<open>
  \<open>x // w\<close> for a float \<open>x\<close> and a positive \<open>int\<close> \<open>w\<close> that is a float without
  rounding, as 1000 is; the steps are those of \<open>float_floor_div\<close> of CPython.  With
  \<open>vx = p / q\<close>: \<open>mod = fmod(vx, wx)\<close>, which is exact and is \<open>r / q\<close>;
  \<open>div = (vx - mod) / wx\<close>, rounded after the subtraction and after the division;
  \<open>div -= 1.0\<close> when \<open>mod\<close> is negative; then \<open>snap\<close>: \<open>floor(div)\<close>, and one more
  when \<open>div - floor(div) > 0.5\<close>, and zero when \<open>div\<close> is zero.  When \<open>x\<close> is an
  infinity or NaN, \<open>fmod\<close> gives NaN and so does every later step.  \<open>round_frac\<close> rounds
  a fraction to the nearest float and gives it as a fraction again.
\<close>

definition round_frac :: "int \<times> int \<Rightarrow> int \<times> int" where
  "round_frac x = (case round53 (fst x) (snd x) of (n, e) \<Rightarrow> frac_of n e)"

definition snap :: "int \<times> int \<Rightarrow> pyfloat" where
  "snap d =
     (if fst d = 0 then Finite 0 0
      else round_double
             (if snd d < 2 * (fst d - (fst d div snd d) * snd d)
              then fst d div snd d + 1 else fst d div snd d) 1)"

definition float_floordiv :: "pyfloat \<Rightarrow> int \<Rightarrow> pyfloat" where
  "float_floordiv x w =
     (case x of
        Finite m e \<Rightarrow>
          (case frac_of m e of (p, q) \<Rightarrow>
             let r = sgn p * (\<bar>p\<bar> mod (w * q));
                 t = round_frac (p - r, q);
                 d = round_frac (fst t, snd t * w)
             in snap (if r < 0 then round_frac (fst d - snd d, snd d) else d))
      | _ \<Rightarrow> NaN)"

text \<open>
  What \<open>json.load\<close> builds.  JSON \<open>true\<close> and \<open>false\<close> become Python \<open>True\<close> and
  \<open>False\<close>, which are the integers 1 and 0 for everything this program does with a
  value (\<open>==\<close>, hashing, \<open>//\<close>, binding to an SQL parameter), so they are \<open>JInt 1\<close> and
  \<open>JInt 0\<close>.  A numeral with a fraction or an exponent becomes a \<open>float\<close>, and so do
  \<open>NaN\<close>, \<open>Infinity\<close> and \<open>-Infinity\<close>, which \<open>json.load\<close> accepts.  A \<open>dict\<close> is the
  list of its items in insertion order.
\<close>

datatype json =
    JNull
  | JInt int
  | JFloat pyfloat
  | JStr pystr
  | JList "json list"
  | JObj "(pystr \<times> json) list"

section \<open>Text repair\<close>

text \<open>\<open>str.encode('latin_1')\<close>: code point \<open>n\<close> is byte \<open>n\<close>, and there is no byte above 255.\<close>

definition latin1_encode :: "pystr \<Rightarrow> error + byte list" where
  "latin1_encode s = (if list_all (\<lambda>c. c < 256) s then Inr s else Inl UnicodeEncodeError)"

text \<open>\<open>bytes.decode('latin_1')\<close>: byte \<open>n\<close> is code point \<open>n\<close>.\<close>

definition latin1_decode :: "byte list \<Rightarrow> pystr" where
  "latin1_decode bs = bs"

text \<open>
  \<open>str.encode('utf-8')\<close>: one to four bytes for each code point; a surrogate
  (U+D800 to U+DFFF) has no encoding.
\<close>

definition utf8_encode_cp :: "codepoint \<Rightarrow> error + byte list" where
  "utf8_encode_cp c =
     (if c < 0x80 then Inr [c]
      else if c < 0x800 then Inr [0xC0 + c div 64, 0x80 + c mod 64]
      else if 0xD800 \<le> c \<and> c \<le> 0xDFFF then Inl UnicodeEncodeError
      else if c < 0x10000 then
        Inr [0xE0 + c div 4096, 0x80 + (c div 64) mod 64, 0x80 + c mod 64]
      else if c < 0x110000 then
        Inr [0xF0 + c div 262144, 0x80 + (c div 4096) mod 64,
             0x80 + (c div 64) mod 64, 0x80 + c mod 64]
      else Inl UnicodeEncodeError)"

fun utf8_encode :: "pystr \<Rightarrow> error + byte list" where
  "utf8_encode [] = Inr []"
| "utf8_encode (c # cs) =
     (case utf8_encode_cp c of
        Inl e \<Rightarrow> Inl e
      | Inr bs \<Rightarrow> (case utf8_encode cs of Inl e \<Rightarrow> Inl e | Inr rest \<Rightarrow> Inr (bs @ rest)))"

text \<open>
  \<open>bytes.decode('utf-8')\<close> with the default strict error handling: the lead byte gives
  the length, every other byte is a continuation byte (0x80 to 0xBF), and the second byte is
  narrowed after 0xE0, 0xED, 0xF0 and 0xF4 so that overlong forms, surrogates and code points
  above U+10FFFF are rejected.
\<close>

definition is_cont :: "byte \<Rightarrow> bool" where
  "is_cont b \<longleftrightarrow> 0x80 \<le> b \<and> b \<le> 0xBF"

definition second_ok :: "byte \<Rightarrow> byte \<Rightarrow> bool" where
  "second_ok b0 b1 =
     (if b0 = 0xE0 then 0xA0 \<le> b1 \<and> b1 \<le> 0xBF
      else if b0 = 0xED then 0x80 \<le> b1 \<and> b1 \<le> 0x9F
      else if b0 = 0xF0 then 0x90 \<le> b1 \<and> b1 \<le> 0xBF
      else if b0 = 0xF4 then 0x80 \<le> b1 \<and> b1 \<le> 0x8F
      else is_cont b1)"

definition push_cp :: "codepoint \<Rightarrow> error + pystr \<Rightarrow> error + pystr" where
  "push_cp c r = (case r of Inl e \<Rightarrow> Inl e | Inr cs \<Rightarrow> Inr (c # cs))"

fun utf8_decode :: "byte list \<Rightarrow> error + pystr" where
  "utf8_decode [] = Inr []"
| "utf8_decode (b0 # bs) =
     (if b0 < 0x80 then push_cp b0 (utf8_decode bs)
      else if 0xC2 \<le> b0 \<and> b0 \<le> 0xDF then
        (case bs of
           b1 # r \<Rightarrow>
             if is_cont b1
             then push_cp ((b0 - 0xC0) * 64 + (b1 - 0x80)) (utf8_decode r)
             else Inl UnicodeDecodeError
         | _ \<Rightarrow> Inl UnicodeDecodeError)
      else if 0xE0 \<le> b0 \<and> b0 \<le> 0xEF then
        (case bs of
           b1 # b2 # r \<Rightarrow>
             if second_ok b0 b1 \<and> is_cont b2
             then push_cp ((b0 - 0xE0) * 4096 + (b1 - 0x80) * 64 + (b2 - 0x80)) (utf8_decode r)
             else Inl UnicodeDecodeError
         | _ \<Rightarrow> Inl UnicodeDecodeError)
      else if 0xF0 \<le> b0 \<and> b0 \<le> 0xF4 then
        (case bs of
           b1 # b2 # b3 # r \<Rightarrow>
             if second_ok b0 b1 \<and> is_cont b2 \<and> is_cont b3
             then push_cp ((b0 - 0xF0) * 262144 + (b1 - 0x80) * 4096
                           + (b2 - 0x80) * 64 + (b3 - 0x80)) (utf8_decode r)
             else Inl UnicodeDecodeError
         | _ \<Rightarrow> Inl UnicodeDecodeError)
      else Inl UnicodeDecodeError)"

text \<open>The expression \<open>x.encode('latin_1').decode('utf-8')\<close> of \<open>parseJsonObject\<close>.\<close>

definition text_repair :: "pystr \<Rightarrow> error + pystr" where
  "text_repair s = (case latin1_encode s of Inl e \<Rightarrow> Inl e | Inr bs \<Rightarrow> utf8_decode bs)"


text \<open>
  \<open>parseJsonObject\<close>: a value that is a \<open>str\<close> is repaired, a value that is a \<open>list\<close>
  has each element that is a \<open>str\<close> repaired, every other value stays.  The first string
  that cannot be repaired raises, which ends the loop.
\<close>

fun map_result :: "('a \<Rightarrow> error + 'b) \<Rightarrow> 'a list \<Rightarrow> error + 'b list" where
  "map_result f [] = Inr []"
| "map_result f (x # xs) =
     (case f x of
        Inl e \<Rightarrow> Inl e
      | Inr y \<Rightarrow> (case map_result f xs of Inl e \<Rightarrow> Inl e | Inr ys \<Rightarrow> Inr (y # ys)))"

fun repair_element :: "json \<Rightarrow> error + json" where
  "repair_element (JStr s) = (case text_repair s of Inl e \<Rightarrow> Inl e | Inr t \<Rightarrow> Inr (JStr t))"
| "repair_element x = Inr x"

fun repair_field :: "json \<Rightarrow> error + json" where
  "repair_field (JStr s) = (case text_repair s of Inl e \<Rightarrow> Inl e | Inr t \<Rightarrow> Inr (JStr t))"
| "repair_field (JList xs) =
     (case map_result repair_element xs of Inl e \<Rightarrow> Inl e | Inr ys \<Rightarrow> Inr (JList ys))"
| "repair_field x = Inr x"

definition parseJsonObject :: "(pystr \<times> json) list \<Rightarrow> error + (pystr \<times> json) list" where
  "parseJsonObject obj =
     map_result (\<lambda>(key, v). case repair_field v of Inl e \<Rightarrow> Inl e | Inr v' \<Rightarrow> Inr (key, v')) obj"

text \<open>
  \<open>loadJson\<close>: \<open>json.load\<close> calls the hook on every object of the document once the
  object's own values are built, innermost first, and puts the hook's result in its place.
  The argument is the document as \<open>json.load\<close> would build it without a hook.
\<close>

fun loadJson :: "json \<Rightarrow> error + json"
  and loadJson_list :: "json list \<Rightarrow> error + json list"
  and loadJson_items :: "(pystr \<times> json) list \<Rightarrow> error + (pystr \<times> json) list" where
  "loadJson (JObj kvs) =
     (case loadJson_items kvs of
        Inl e \<Rightarrow> Inl e
      | Inr kvs' \<Rightarrow> (case parseJsonObject kvs' of Inl e \<Rightarrow> Inl e | Inr obj \<Rightarrow> Inr (JObj obj)))"
| "loadJson (JList xs) =
     (case loadJson_list xs of Inl e \<Rightarrow> Inl e | Inr ys \<Rightarrow> Inr (JList ys))"
| "loadJson JNull = Inr JNull"
| "loadJson (JInt i) = Inr (JInt i)"
| "loadJson (JFloat f) = Inr (JFloat f)"
| "loadJson (JStr s) = Inr (JStr s)"
| "loadJson_list [] = Inr []"
| "loadJson_list (x # xs) =
     (case loadJson x of
        Inl e \<Rightarrow> Inl e
      | Inr y \<Rightarrow> (case loadJson_list xs of Inl e \<Rightarrow> Inl e | Inr ys \<Rightarrow> Inr (y # ys)))"
| "loadJson_items [] = Inr []"
| "loadJson_items (kv # kvs) =
     (case loadJson (snd kv) of
        Inl e \<Rightarrow> Inl e
      | Inr v \<Rightarrow>
          (case loadJson_items kvs of Inl e \<Rightarrow> Inl e | Inr kvs' \<Rightarrow> Inr ((fst kv, v) # kvs')))"

text \<open>
  The defect the repair undoes, in the words of the specification: text that was encoded as
  UTF-8 and whose bytes were then decoded as Latin-1.  It is laid over an object the way
  \<open>parseJsonObject\<close> walks one.
\<close>

definition mojibake :: "pystr \<Rightarrow> error + pystr" where
  "mojibake t = (case utf8_encode t of Inl e \<Rightarrow> Inl e | Inr bs \<Rightarrow> Inr (latin1_decode bs))"

fun mojibake_element :: "json \<Rightarrow> error + json" where
  "mojibake_element (JStr t) = (case mojibake t of Inl e \<Rightarrow> Inl e | Inr s \<Rightarrow> Inr (JStr s))"
| "mojibake_element x = Inr x"

fun mojibake_field :: "json \<Rightarrow> error + json" where
  "mojibake_field (JStr t) = (case mojibake t of Inl e \<Rightarrow> Inl e | Inr s \<Rightarrow> Inr (JStr s))"
| "mojibake_field (JList xs) =
     (case map_result mojibake_element xs of Inl e \<Rightarrow> Inl e | Inr ys \<Rightarrow> Inr (JList ys))"
| "mojibake_field x = Inr x"

definition mojibake_object :: "(pystr \<times> json) list \<Rightarrow> error + (pystr \<times> json) list" where
  "mojibake_object obj =
     map_result (\<lambda>(key, v). case mojibake_field v of Inl e \<Rightarrow> Inl e | Inr v' \<Rightarrow> Inr (key, v')) obj"

section \<open>Operations of Python on the parsed values\<close>

text \<open>\<open>needle in hay\<close> for two strings: \<open>needle\<close> occurs in \<open>hay\<close> as a substring.\<close>

fun starts_with :: "pystr \<Rightarrow> pystr \<Rightarrow> bool" where
  "starts_with hay [] = True"
| "starts_with [] (n # ns) = False"
| "starts_with (h # hs) (n # ns) = (h = n \<and> starts_with hs ns)"

fun str_contains :: "pystr \<Rightarrow> pystr \<Rightarrow> bool" where
  "str_contains [] needle = (needle = [])"
| "str_contains (h # hs) needle = (starts_with (h # hs) needle \<or> str_contains hs needle)"

text \<open>\<open>s.split(sep)\<close> for a separator of one character; the result is never empty.\<close>

fun py_split :: "codepoint \<Rightarrow> pystr \<Rightarrow> pystr list" where
  "py_split sep [] = [[]]"
| "py_split sep (c # cs) =
     (if c = sep then [] # py_split sep cs
      else (case py_split sep cs of [] \<Rightarrow> [[c]] | x # xs \<Rightarrow> (c # x) # xs))"

text \<open>\<open>xs[-1]\<close>.\<close>

definition py_last :: "'a list \<Rightarrow> error + 'a" where
  "py_last xs = (if xs = [] then Inl IndexError else Inr (last xs))"

text \<open>\<open>v[key]\<close> with a string key: only a \<open>dict\<close> can be read so.\<close>

fun subscript :: "json \<Rightarrow> pystr \<Rightarrow> error + json" where
  "subscript (JObj kvs) key = (case map_of kvs key of None \<Rightarrow> Inl KeyError | Some v \<Rightarrow> Inr v)"
| "subscript v key = Inl TypeError"

text \<open>
  \<open>key in v\<close> with a string key: a key of a \<open>dict\<close>, a substring of a \<open>str\<close>, an element
  of a \<open>list\<close>; \<open>None\<close> and numbers are not containers.
\<close>

fun py_in :: "pystr \<Rightarrow> json \<Rightarrow> error + bool" where
  "py_in key (JObj kvs) = Inr (key \<in> set (map fst kvs))"
| "py_in key (JStr s) = Inr (str_contains s key)"
| "py_in key (JList xs) = Inr (JStr key \<in> set xs)"
| "py_in key v = Inl TypeError"

text \<open>
  \<open>for x in v\<close>: the elements of a \<open>list\<close>, the characters of a \<open>str\<close>, the keys of a
  \<open>dict\<close>.
\<close>

fun py_iter :: "json \<Rightarrow> error + json list" where
  "py_iter (JList xs) = Inr xs"
| "py_iter (JStr s) = Inr (map (\<lambda>c. JStr [c]) s)"
| "py_iter (JObj kvs) = Inr (map (\<lambda>kv. JStr (fst kv)) kvs)"
| "py_iter v = Inl TypeError"

text \<open>
  \<open>v // n\<close> for a positive \<open>int\<close> \<open>n\<close>: floor division, defined on numbers only.  The
  result is an \<open>int\<close> for an \<open>int\<close> and a \<open>float\<close> for a \<open>float\<close>.
\<close>

fun floordiv :: "json \<Rightarrow> int \<Rightarrow> error + json" where
  "floordiv (JInt i) n = Inr (JInt (i div n))"
| "floordiv (JFloat f) n = Inr (JFloat (float_floordiv f n))"
| "floordiv v n = Inl TypeError"

text \<open>
  \<open>a == b\<close>.  An \<open>int\<close> and a \<open>float\<close> are equal when they are the same number, and
  NaN is equal to nothing.  Two lists are equal when they are equal element by element, two
  dicts when they have the same keys with equal values, in any order.
\<close>

fun py_eq :: "json \<Rightarrow> json \<Rightarrow> bool" where
  "py_eq JNull b = (b = JNull)"
| "py_eq (JInt i) b = (b = JInt i \<or> b = JFloat (mk_float i 0))"
| "py_eq (JFloat f) b =
     (case b of
        JInt i \<Rightarrow> f = mk_float i 0
      | JFloat g \<Rightarrow> f \<noteq> NaN \<and> g = f
      | _ \<Rightarrow> False)"
| "py_eq (JStr s) b = (b = JStr s)"
| "py_eq (JList xs) b = (case b of JList ys \<Rightarrow> list_all2 py_eq xs ys | _ \<Rightarrow> False)"
| "py_eq (JObj kvs) b =
     (case b of
        JObj kvs' \<Rightarrow>
          length kvs = length kvs' \<and>
          list_all (\<lambda>kv. case map_of kvs' (fst kv) of None \<Rightarrow> False | Some v' \<Rightarrow> py_eq (snd kv) v') kvs
      | _ \<Rightarrow> False)"

text \<open>The two exceptions of the codecs: both are \<open>UnicodeError\<close>s.\<close>

definition encoding_error :: "error \<Rightarrow> bool" where
  "encoding_error e \<longleftrightarrow> e = UnicodeEncodeError \<or> e = UnicodeDecodeError"

section \<open>Discovery of the chunk files\<close>

text \<open>
  \<open>getMessagePaths\<close>.  The listing that \<open>os.listdir\<close> returns is an argument.  The
  separator \<open>'\\'\<close> of the source is one backslash, code point 92.
\<close>

definition isMessageFile :: "pystr \<Rightarrow> bool" where
  "isMessageFile filename \<longleftrightarrow>
     str_contains filename (lit ''.json'') \<and> str_contains filename (lit ''message'')"

definition getMessagePaths :: "pystr \<Rightarrow> pystr list \<Rightarrow> pystr list" where
  "getMessagePaths directory all_files =
     map (\<lambda>x. directory @ [92] @ x) (filter isMessageFile all_files)"

text \<open>The reading of the specification: the name ends with the suffix.\<close>

definition ends_with :: "pystr \<Rightarrow> pystr \<Rightarrow> bool" where
  "ends_with name suffix \<longleftrightarrow> starts_with (rev name) (rev suffix)"

section \<open>Conversation\<close>

text \<open>
  The class \<open>Conversation\<close>.  \<open>metadata\<close> and \<open>participants\<close> are dicts, kept as the
  lists of their items in insertion order; a participant's id is \<open>None\<close> until the
  conversation is saved.  The field \<open>id\<close> is \<open>conv_id\<close>.
\<close>

record conversation =
  directory :: pystr
  metadata :: "(pystr \<times> json) list"
  participants :: "(json \<times> int option) list"
  chunks_loaded :: int
  messages :: "json list"
  conv_id :: int

definition Conversation :: "pystr \<Rightarrow> conversation" where
  "Conversation d =
     \<lparr>directory = d, metadata = [], participants = [], chunks_loaded = 0, messages = [],
      conv_id = 0\<rparr>"

text \<open>A \<open>list\<close> or a \<open>dict\<close> cannot be the key of a dict.\<close>

fun hashable :: "json \<Rightarrow> bool" where
  "hashable (JList xs) = False"
| "hashable (JObj kvs) = False"
| "hashable v = True"

text \<open>\<open>d[k] = v\<close>: a key that is present keeps its place, a new key goes to the end.\<close>

fun dict_set :: "('k \<times> 'v) list \<Rightarrow> 'k \<Rightarrow> 'v \<Rightarrow> ('k \<times> 'v) list" where
  "dict_set [] k v = [(k, v)]"
| "dict_set (kv # d) k v = (if fst kv = k then (fst kv, v) # d else kv # dict_set d k v)"

definition dict_eq :: "(pystr \<times> json) list \<Rightarrow> (pystr \<times> json) list \<Rightarrow> bool" where
  "dict_eq a b = py_eq (JObj a) (JObj b)"

text \<open>The loop of \<open>loadMessages\<close> over \<open>json['participants']\<close>.\<close>

fun register :: "(json \<times> int option) list \<Rightarrow> json list \<Rightarrow> error + (json \<times> int option) list" where
  "register ps [] = Inr ps"
| "register ps (participant # rest) =
     (case subscript participant (lit ''name'') of
        Inl e \<Rightarrow> Inl e
      | Inr name \<Rightarrow>
          if hashable name then register (dict_set ps name None) rest else Inl TypeError)"

text \<open>
  \<open>loadMessages\<close>.  An exception leaves the run, so the conversation it leaves behind
  is not kept.  \<open>self.messages += x\<close> extends the list by whatever \<open>x\<close> iterates over.
\<close>

definition first_chunk :: "conversation \<Rightarrow> json \<Rightarrow> (pystr \<times> json) list \<Rightarrow> error + conversation" where
  "first_chunk self doc md =
     (case subscript doc (lit ''participants'') of
        Inl e \<Rightarrow> Inl e
      | Inr ps \<Rightarrow>
          (case py_iter ps of
             Inl e \<Rightarrow> Inl e
           | Inr plist \<Rightarrow>
               (case register (participants self) plist of
                  Inl e \<Rightarrow> Inl e
                | Inr parts \<Rightarrow> Inr (self\<lparr>metadata := md, participants := parts\<rparr>))))"

definition add_messages :: "conversation \<Rightarrow> json \<Rightarrow> error + conversation" where
  "add_messages self doc =
     (case subscript doc (lit ''messages'') of
        Inl e \<Rightarrow> Inl e
      | Inr ms \<Rightarrow>
          (case py_iter ms of
             Inl e \<Rightarrow> Inl e
           | Inr mlist \<Rightarrow>
               Inr (self\<lparr>chunks_loaded := chunks_loaded self + 1,
                         messages := messages self @ mlist\<rparr>)))"

definition doc_metadata :: "json \<Rightarrow> error + (pystr \<times> json) list" where
  "doc_metadata doc =
     (case subscript doc (lit ''title'') of
        Inl e \<Rightarrow> Inl e
      | Inr title \<Rightarrow>
          (case subscript doc (lit ''thread_type'') of
             Inl e \<Rightarrow> Inl e
           | Inr thread_type \<Rightarrow>
               (case subscript doc (lit ''thread_path'') of
                  Inl e \<Rightarrow> Inl e
                | Inr thread_path \<Rightarrow>
                    Inr [(lit ''title'', title), (lit ''thread_type'', thread_type),
                         (lit ''thread_path'', thread_path)])))"

definition loadMessages :: "conversation \<Rightarrow> json \<Rightarrow> error + conversation" where
  "loadMessages self doc =
     (case doc_metadata doc of
        Inl e \<Rightarrow> Inl e
      | Inr md \<Rightarrow>
          (case (if metadata self = [] then first_chunk self doc md
                 else if dict_eq (metadata self) md then Inr self
                 else Inl AssertionError) of
             Inl e \<Rightarrow> Inl e
           | Inr self' \<Rightarrow> add_messages self' doc))"

text \<open>The loop of the script over the chunk files of one directory.\<close>

fun load_all :: "conversation \<Rightarrow> json list \<Rightarrow> error + conversation" where
  "load_all c [] = Inr c"
| "load_all c (doc # docs) =
     (case loadMessages c doc of Inl e \<Rightarrow> Inl e | Inr c' \<Rightarrow> load_all c' docs)"

text \<open>What a document adds to the message sequence: what \<open>json['messages']\<close> iterates over.\<close>

definition doc_messages :: "json \<Rightarrow> json list" where
  "doc_messages doc =
     (case subscript doc (lit ''messages'') of
        Inl e \<Rightarrow> []
      | Inr ms \<Rightarrow> (case py_iter ms of Inl e \<Rightarrow> [] | Inr mlist \<Rightarrow> mlist))"

section \<open>Database\<close>

text \<open>
  The tables the program writes.  \<open>table_name\<close> is the name in the SQL text, which for the
  five kinds of attachment is also the key in a message.
\<close>

datatype table =
    Conversations | Participants | Messages | Photos | Shares | Files | Gifs | Videos
  | AudioFiles | Reactions | Stickers

fun table_name :: "table \<Rightarrow> pystr" where
  "table_name Conversations = lit ''conversations''"
| "table_name Participants = lit ''participants''"
| "table_name Messages = lit ''messages''"
| "table_name Photos = lit ''photos''"
| "table_name Shares = lit ''shares''"
| "table_name Files = lit ''files''"
| "table_name Gifs = lit ''gifs''"
| "table_name Videos = lit ''videos''"
| "table_name AudioFiles = lit ''audio_files''"
| "table_name Reactions = lit ''reactions''"
| "table_name Stickers = lit ''stickers''"

datatype sqlval = SNull | SInt int | SReal pyfloat | SText pystr

text \<open>
  A row is the values of the columns an \<open>INSERT\<close> names, with the rowid SQLite gives the
  row (what \<open>cursor.lastrowid\<close> returns).  The program reads the rowid of a row of
  \<open>participants\<close> and of \<open>messages\<close> only.
\<close>

type_synonym row = "int \<times> sqlval list"
type_synonym tables = "table \<Rightarrow> row list"

text \<open>
  Modelled from the spec: the \<open>CREATE TABLE\<close> statements are not in the source.  The
  specification's output schema gives the columns; the constraints a table may declare are
  the parameter \<open>schema\<close>, which says whether the table accepts the values of a new row
  given the rows it holds.
\<close>

type_synonym schema = "table \<Rightarrow> sqlval list \<Rightarrow> row list \<Rightarrow> bool"

text \<open>
  The database file holds what was committed; the connection \<open>self.db\<close> sees in addition
  the rows of the transaction that is open.
\<close>

record database =
  committed :: tables
  pending :: tables

text \<open>
  Binding a Python value to a \<open>?\<close>: \<open>None\<close> is NULL, an \<open>int\<close> must fit 64 bits, a
  \<open>float\<close> is a REAL, but NaN, which SQLite does not store, is NULL, a \<open>str\<close> is stored
  as UTF-8, and a \<open>list\<close> or a \<open>dict\<close> cannot be bound.  The value is kept as it is
  bound: a column that is declared as a number would keep a REAL without a fraction as the
  integer of the same value.
\<close>

fun bind_param :: "json \<Rightarrow> error + sqlval" where
  "bind_param JNull = Inr SNull"
| "bind_param (JInt i) =
     (if - (2 ^ 63) \<le> i \<and> i < 2 ^ 63 then Inr (SInt i) else Inl OverflowError)"
| "bind_param (JFloat f) = Inr (if f = NaN then SNull else SReal f)"
| "bind_param (JStr s) = (case utf8_encode s of Inl e \<Rightarrow> Inl e | Inr bs \<Rightarrow> Inr (SText s))"
| "bind_param (JList xs) = Inl InterfaceError"
| "bind_param (JObj kvs) = Inl InterfaceError"

text \<open>The rowid of a new row: 1 in an empty table, else one more than the largest.\<close>

definition next_rowid :: "row list \<Rightarrow> int" where
  "next_rowid rows = (case rows of [] \<Rightarrow> 1 | r # rs \<Rightarrow> fold max (map fst rs) (fst r) + 1)"

text \<open>\<open>cursor.execute("INSERT INTO t (...) VALUES (?, ...)", params)\<close>, then \<open>cursor.lastrowid\<close>.\<close>

definition execute_insert :: "schema \<Rightarrow> table \<Rightarrow> json list \<Rightarrow> tables \<Rightarrow> (error + int) \<times> tables" where
  "execute_insert sch t params tb =
     (case map_result bind_param params of
        Inl e \<Rightarrow> (Inl e, tb)
      | Inr vals \<Rightarrow>
          if sch t vals (tb t)
          then (Inr (next_rowid (tb t)), tb(t := tb t @ [(next_rowid (tb t), vals)]))
          else (Inl DatabaseError, tb))"

text \<open>
  What a statement of the program returns where the program tests it: a cursor, an id,
  \<open>True\<close> or \<open>False\<close>.
\<close>

datatype pyresult = RFalse | RTrue | RCursor | RInt int

fun truthy :: "pyresult \<Rightarrow> bool" where
  "truthy RFalse = False"
| "truthy RTrue = True"
| "truthy RCursor = True"
| "truthy (RInt i) = (i \<noteq> 0)"

subsection \<open>Statements that change a state and may raise\<close>

text \<open>
  A statement takes the state and returns its result, or the exception it raised, with the
  state it leaves: what was written before an exception stays written.
\<close>

type_synonym ('s, 'a) stmt = "'s \<Rightarrow> (error + 'a) \<times> 's"

definition ret :: "'a \<Rightarrow> ('s, 'a) stmt" where
  "ret a = (\<lambda>s. (Inr a, s))"

definition lift :: "error + 'a \<Rightarrow> ('s, 'a) stmt" where
  "lift r = (\<lambda>s. (r, s))"

definition bnd :: "('s, 'a) stmt \<Rightarrow> ('a \<Rightarrow> ('s, 'b) stmt) \<Rightarrow> ('s, 'b) stmt" where
  "bnd m f = (\<lambda>s. case m s of (Inl e, s') \<Rightarrow> (Inl e, s') | (Inr a, s') \<Rightarrow> f a s')"

definition discard :: "('s, 'a) stmt \<Rightarrow> ('s, unit) stmt" where
  "discard m = bnd m (\<lambda>_. ret ())"

fun for_each :: "'a list \<Rightarrow> ('a \<Rightarrow> ('s, unit) stmt) \<Rightarrow> ('s, unit) stmt" where
  "for_each [] body = ret ()"
| "for_each (x # xs) body = bnd (body x) (\<lambda>_. for_each xs body)"

text \<open>A statement on the tables, run where the state is a conversation with the tables.\<close>

definition on_db :: "(tables, 'a) stmt \<Rightarrow> (conversation \<times> tables, 'a) stmt" where
  "on_db m = (\<lambda>(c, tb). case m tb of (r, tb') \<Rightarrow> (r, (c, tb')))"

subsection \<open>The methods of \<open>Database\<close>\<close>

text \<open>
  The leading underscore of a private method is dropped; \<open>_removeAll\<close> is
  \<open>removeAll_table\<close>.  A Python \<open>int\<close> that is bound to a parameter is \<open>JInt\<close>, \<open>None\<close>
  is \<open>JNull\<close>.
\<close>

fun py_int_or_none :: "int option \<Rightarrow> json" where
  "py_int_or_none None = JNull"
| "py_int_or_none (Some i) = JInt i"

text \<open>\<open>d[key] if key in d else None\<close>.\<close>

definition get_or_none :: "json \<Rightarrow> pystr \<Rightarrow> error + json" where
  "get_or_none d key =
     (case py_in key d of
        Inl e \<Rightarrow> Inl e
      | Inr present \<Rightarrow> if present then subscript d key else Inr JNull)"

definition saveParticipant :: "schema \<Rightarrow> int \<Rightarrow> json \<Rightarrow> bool \<Rightarrow> (tables, int) stmt" where
  "saveParticipant sch convo_id participant current =
     execute_insert sch Participants
       [JInt convo_id, participant, JInt (if current then 1 else 0)]"

definition getParticipantId :: "schema \<Rightarrow> json \<Rightarrow> (conversation \<times> tables, int option) stmt" where
  "getParticipantId sch name = (\<lambda>(c, tb).
     if \<not> hashable name then (Inl TypeError, (c, tb))
     else
       (case map_of (participants c) name of
          Some participant_id \<Rightarrow> (Inr participant_id, (c, tb))
        | None \<Rightarrow>
            (case saveParticipant sch (conv_id c) name False tb of
               (Inl e, tb') \<Rightarrow> (Inl e, (c, tb'))
             | (Inr participant_id, tb') \<Rightarrow>
                 (Inr (Some participant_id),
                  (c\<lparr>participants := dict_set (participants c) name (Some participant_id)\<rparr>,
                   tb')))))"

definition saveReaction :: "schema \<Rightarrow> int \<Rightarrow> int option \<Rightarrow> json \<Rightarrow> (tables, int) stmt" where
  "saveReaction sch message_id user_id reaction =
     execute_insert sch Reactions [JInt message_id, py_int_or_none user_id, reaction]"

definition saveAttachement :: "schema \<Rightarrow> table \<Rightarrow> int \<Rightarrow> json \<Rightarrow> (tables, int) stmt" where
  "saveAttachement sch t message_id item = (\<lambda>tb.
     case subscript item (lit ''uri'') of
       Inl e \<Rightarrow> (Inl e, tb)
     | Inr (JStr uri) \<Rightarrow>
         (case py_last (py_split (of_char CHR ''/'') uri) of
            Inl e \<Rightarrow> (Inl e, tb)
          | Inr filename \<Rightarrow> execute_insert sch t [JInt message_id, JStr filename] tb)
     | Inr _ \<Rightarrow> (Inl AttributeError, tb))"

definition saveSticker :: "schema \<Rightarrow> int \<Rightarrow> json \<Rightarrow> (tables, int) stmt" where
  "saveSticker sch message_id sticker = (\<lambda>tb.
     case subscript sticker (lit ''uri'') of
       Inl e \<Rightarrow> (Inl e, tb)
     | Inr path \<Rightarrow> execute_insert sch Stickers [JInt message_id, path] tb)"

definition saveShare :: "schema \<Rightarrow> int \<Rightarrow> json \<Rightarrow> (tables, int) stmt" where
  "saveShare sch message_id share = (\<lambda>tb.
     case get_or_none share (lit ''link'') of
       Inl e \<Rightarrow> (Inl e, tb)
     | Inr link \<Rightarrow>
         (case get_or_none share (lit ''share_text'') of
            Inl e \<Rightarrow> (Inl e, tb)
          | Inr share_text \<Rightarrow>
              execute_insert sch Shares [JInt message_id, link, share_text] tb))"

definition attachements :: "table list" where
  "attachements = [Photos, Videos, Files, AudioFiles, Gifs]"

text \<open>The three parts of \<open>_saveMessage\<close> that follow the insertion of the message row.\<close>

definition save_reactions :: "schema \<Rightarrow> json \<Rightarrow> int \<Rightarrow> (conversation \<times> tables, unit) stmt" where
  "save_reactions sch item message_id =
     bnd (lift (py_in (lit ''reactions'') item)) (\<lambda>present.
       if present then
         bnd (lift (case subscript item (lit ''reactions'') of
                      Inl e \<Rightarrow> Inl e | Inr v \<Rightarrow> py_iter v)) (\<lambda>reactions.
           for_each reactions (\<lambda>reaction.
             bnd (lift (subscript reaction (lit ''actor''))) (\<lambda>actor.
             bnd (getParticipantId sch actor) (\<lambda>user_id.
             bnd (lift (subscript reaction (lit ''reaction''))) (\<lambda>symbol.
             discard (on_db (saveReaction sch message_id user_id symbol)))))))
       else ret ())"

definition save_attachements :: "schema \<Rightarrow> json \<Rightarrow> int \<Rightarrow> (conversation \<times> tables, unit) stmt" where
  "save_attachements sch item message_id =
     for_each attachements (\<lambda>t.
       bnd (lift (py_in (table_name t) item)) (\<lambda>present.
         if present then
           bnd (lift (case subscript item (table_name t) of
                        Inl e \<Rightarrow> Inl e | Inr v \<Rightarrow> py_iter v)) (\<lambda>datas.
             for_each datas (\<lambda>data.
               discard (on_db (saveAttachement sch t message_id data))))
         else ret ()))"

definition save_share_sticker :: "schema \<Rightarrow> json \<Rightarrow> int \<Rightarrow> (conversation \<times> tables, unit) stmt" where
  "save_share_sticker sch item message_id =
     bnd (lift (py_in (lit ''share'') item)) (\<lambda>has_share.
     bnd (if has_share then
            bnd (lift (subscript item (lit ''share''))) (\<lambda>share.
              discard (on_db (saveShare sch message_id share)))
          else ret ()) (\<lambda>_.
     bnd (lift (py_in (lit ''sticker'') item)) (\<lambda>has_sticker.
       if has_sticker then
         bnd (lift (subscript item (lit ''sticker''))) (\<lambda>sticker.
           discard (on_db (saveSticker sch message_id sticker)))
       else ret ())))"

definition saveMessage :: "schema \<Rightarrow> json \<Rightarrow> (conversation \<times> tables, int) stmt" where
  "saveMessage sch item =
     bnd (lift (get_or_none item (lit ''content''))) (\<lambda>content.
     bnd (lift (case subscript item (lit ''timestamp_ms'') of
                  Inl e \<Rightarrow> Inl e | Inr ms \<Rightarrow> floordiv ms 1000)) (\<lambda>epoch.
     bnd (lift (subscript item (lit ''sender_name''))) (\<lambda>sender_name.
     bnd (getParticipantId sch sender_name) (\<lambda>sender_id.
     bnd (lift (subscript item (lit ''type''))) (\<lambda>type.
     bnd (\<lambda>s. on_db (execute_insert sch Messages
                 [epoch, type, py_int_or_none sender_id, JInt (conv_id (fst s)), content]) s)
       (\<lambda>message_id.
     bnd (save_reactions sch item message_id) (\<lambda>_.
     bnd (save_attachements sch item message_id) (\<lambda>_.
     bnd (save_share_sticker sch item message_id) (\<lambda>_.
     ret message_id)))))))))"

text \<open>The loop \<open>result = result and self._saveMessage(message, item, cursor)\<close>.\<close>

fun save_messages :: "schema \<Rightarrow> pyresult \<Rightarrow> json list \<Rightarrow> (conversation \<times> tables, pyresult) stmt" where
  "save_messages sch result [] = ret result"
| "save_messages sch result (message # rest) =
     (if truthy result
      then bnd (saveMessage sch message) (\<lambda>message_id. save_messages sch (RInt message_id) rest)
      else save_messages sch result rest)"

definition set_participant :: "json \<Rightarrow> int \<Rightarrow> (conversation \<times> tables, unit) stmt" where
  "set_participant name participant_id = (\<lambda>(c, tb).
     (Inr (), (c\<lparr>participants := dict_set (participants c) name (Some participant_id)\<rparr>, tb)))"

definition saveConversation :: "schema \<Rightarrow> (conversation \<times> tables, pyresult) stmt" where
  "saveConversation sch =
     bnd (\<lambda>s. lift (subscript (JObj (metadata (fst s))) (lit ''title'')) s) (\<lambda>title.
     bnd (\<lambda>s. lift (subscript (JObj (metadata (fst s))) (lit ''thread_type'')) s) (\<lambda>thread_type.
     bnd (\<lambda>s. lift (subscript (JObj (metadata (fst s))) (lit ''thread_path'')) s) (\<lambda>thread_path.
     bnd (\<lambda>s. on_db (execute_insert sch Conversations
                 [JInt (conv_id (fst s)), title, thread_type, thread_path]) s) (\<lambda>_.
     bnd (\<lambda>s. for_each (map fst (participants (fst s))) (\<lambda>participant.
                 bnd (on_db (saveParticipant sch (conv_id (fst s)) participant True))
                   (set_participant participant)) s) (\<lambda>_.
     (\<lambda>s. save_messages sch RCursor (messages (fst s)) s))))))"

text \<open>
  \<open>save\<close>: the commit is reached only when no statement raised.  An item that is not a
  \<open>Conversation\<close> is only committed.
\<close>

datatype item = ConversationItem conversation | OtherItem

definition save :: "schema \<Rightarrow> database \<Rightarrow> item \<Rightarrow> (error + pyresult) \<times> item \<times> database" where
  "save sch db it =
     (case it of
        ConversationItem c \<Rightarrow>
          (case saveConversation sch (c, pending db) of
             (Inl e, (c', tb)) \<Rightarrow> (Inl e, ConversationItem c', db\<lparr>pending := tb\<rparr>)
           | (Inr result, (c', tb)) \<Rightarrow>
               (Inr result, ConversationItem c', \<lparr>committed = tb, pending = tb\<rparr>))
      | OtherItem \<Rightarrow> (Inr RFalse, OtherItem, \<lparr>committed = pending db, pending = pending db\<rparr>))"

text \<open>\<open>_removeAll\<close>: \<open>DELETE FROM t\<close>; the cursor is the result.\<close>

definition removeAll_table :: "table \<Rightarrow> (tables, pyresult) stmt" where
  "removeAll_table t = (\<lambda>tb. (Inr RCursor, tb(t := [])))"

definition removeAll_tables :: "table list" where
  "removeAll_tables =
     [Conversations, Participants, Messages, Photos, Shares, Files, Gifs, Videos, AudioFiles,
      Reactions, Stickers]"

text \<open>The loop \<open>result = result and self._removeAll(table, cursor)\<close>.\<close>

fun removeAll_loop :: "pyresult \<Rightarrow> table list \<Rightarrow> (tables, pyresult) stmt" where
  "removeAll_loop result [] = ret result"
| "removeAll_loop result (t # ts) =
     (if truthy result
      then bnd (removeAll_table t) (\<lambda>r. removeAll_loop r ts)
      else removeAll_loop result ts)"

datatype item_type = ConversationType | OtherType

definition removeAll :: "database \<Rightarrow> item_type \<Rightarrow> (error + pyresult) \<times> database" where
  "removeAll db item_type =
     (case (if item_type = ConversationType
            then removeAll_loop RTrue removeAll_tables (pending db)
            else (Inr RFalse, pending db)) of
        (Inl e, tb) \<Rightarrow> (Inl e, db\<lparr>pending := tb\<rparr>)
      | (Inr result, tb) \<Rightarrow> (Inr result, \<lparr>committed = tb, pending = tb\<rparr>))"

text \<open>
  The script saves the conversations one after the other; an exception ends the run, with
  what earlier calls committed left in the file.
\<close>

fun save_all :: "schema \<Rightarrow> database \<Rightarrow> conversation list \<Rightarrow> (error + unit) \<times> database" where
  "save_all sch db [] = (Inr (), db)"
| "save_all sch db (c # cs) =
     (case save sch db (ConversationItem c) of
        (Inl e, _, db') \<Rightarrow> (Inl e, db')
      | (Inr _, _, db') \<Rightarrow> save_all sch db' cs)"

section \<open>An example conversation\<close>

text \<open>
  The two chunks of the specification's end-to-end example, after the repair: Alice and Bob
  are in the roster, Alice's message has a reaction from Carol, Bob's message has a sticker.
\<close>

definition example_message1 :: json where
  "example_message1 =
     JObj [(lit ''sender_name'', JStr (lit ''Alice'')),
           (lit ''timestamp_ms'', JInt 1500000000123),
           (lit ''content'', JStr (lit ''hello'')),
           (lit ''reactions'',
              JList [JObj [(lit ''reaction'', JStr [0x2764, 0xFE0F]),
                           (lit ''actor'', JStr (lit ''Carol''))]]),
           (lit ''type'', JStr (lit ''Generic''))]"

definition example_message2 :: json where
  "example_message2 =
     JObj [(lit ''sender_name'', JStr (lit ''Bob'')),
           (lit ''timestamp_ms'', JInt 1500000060999),
           (lit ''sticker'', JObj [(lit ''uri'', JStr (lit ''/stickers/s1.webp''))]),
           (lit ''type'', JStr (lit ''Generic''))]"

definition example_metadata :: "(pystr \<times> json) list" where
  "example_metadata =
     [(lit ''title'', JStr (lit ''Trip'')),
      (lit ''thread_type'', JStr (lit ''RegularGroup'')),
      (lit ''thread_path'', JStr (lit ''inbox/trip''))]"

definition example_chunk :: "pystr \<Rightarrow> json list \<Rightarrow> json" where
  "example_chunk title msgs =
     JObj [(lit ''participants'',
              JList [JObj [(lit ''name'', JStr (lit ''Alice''))],
                     JObj [(lit ''name'', JStr (lit ''Bob''))]]),
           (lit ''messages'', JList msgs),
           (lit ''title'', JStr title),
           (lit ''thread_type'', JStr (lit ''RegularGroup'')),
           (lit ''thread_path'', JStr (lit ''inbox/trip''))]"

definition example_conversation :: "json list \<Rightarrow> int \<Rightarrow> conversation" where
  "example_conversation msgs n =
     \<lparr>directory = lit ''messages/trip'', metadata = example_metadata,
      participants = [(JStr (lit ''Alice''), None), (JStr (lit ''Bob''), None)],
      chunks_loaded = n, messages = msgs, conv_id = 0\<rparr>"

section \<open>Reasoning about statements\<close>

text \<open>
  \<open>triple P m Q E\<close>: run from a state where \<open>P\<close> holds, the statement \<open>m\<close> either returns a
  result \<open>a\<close> and leaves a state with \<open>Q a\<close>, or raises and leaves a state with \<open>E\<close>.
\<close>

definition triple ::
  "('s \<Rightarrow> bool) \<Rightarrow> ('s, 'a) stmt \<Rightarrow> ('a \<Rightarrow> 's \<Rightarrow> bool) \<Rightarrow> ('s \<Rightarrow> bool) \<Rightarrow> bool" where
  "triple P m Q E \<longleftrightarrow>
     (\<forall>s. P s \<longrightarrow> (case m s of (Inl e, s') \<Rightarrow> E s' | (Inr a, s') \<Rightarrow> Q a s'))"

text \<open>The value SQLite stores for a parameter that could be bound.\<close>

fun sql_of :: "json \<Rightarrow> sqlval" where
  "sql_of (JInt i) = SInt i"
| "sql_of (JFloat f) = (if f = NaN then SNull else SReal f)"
| "sql_of (JStr s) = SText s"
| "sql_of v = SNull"


text \<open>A schema without constraints.\<close>

definition no_constraints :: schema where
  "no_constraints = (\<lambda>t vals rows. True)"

definition empty_tables :: tables where
  "empty_tables = (\<lambda>t. [])"

text \<open>
  What \<open>_saveAttachement\<close> stores for a URI, \<open>uri.split('/')[-1]\<close>, and the reading of a
  message that \<open>_saveMessage\<close> makes: the URI of an attachment, and the attachments of one
  kind.
\<close>

definition slash :: codepoint where
  "slash = of_char CHR ''/''"

definition filename_of :: "pystr \<Rightarrow> pystr" where
  "filename_of uri = last (py_split slash uri)"

definition uri_of :: "json \<Rightarrow> pystr" where
  "uri_of data = (case subscript data (lit ''uri'') of Inr (JStr uri) \<Rightarrow> uri | _ \<Rightarrow> [])"

definition attached :: "json \<Rightarrow> table \<Rightarrow> json list" where
  "attached item t =
     (case py_in (table_name t) item of
        Inr True \<Rightarrow>
          (case subscript item (table_name t) of
             Inr v \<Rightarrow> (case py_iter v of Inr datas \<Rightarrow> datas | Inl e \<Rightarrow> [])
           | Inl e \<Rightarrow> [])
      | _ \<Rightarrow> [])"




definition example_photo_message :: json where
  "example_photo_message =
     JObj [(lit ''sender_name'', JStr (lit ''Bob'')),
           (lit ''timestamp_ms'', JInt 1500000120000),
           (lit ''photos'',
              JList [JObj [(lit ''uri'', JStr (lit ''messages/trip/photos/a.jpg''))],
                     JObj [(lit ''uri'', JStr (lit ''b.png''))]]),
           (lit ''type'', JStr (lit ''Generic''))]"

section \<open>Participants and their ids\<close>

text \<open>
  The names a message refers to, as \<open>_saveMessage\<close> reads them: its sender and the actors
  of its reactions.
\<close>

definition sender_of :: "json \<Rightarrow> json" where
  "sender_of item = (case subscript item (lit ''sender_name'') of Inr n \<Rightarrow> n | Inl e \<Rightarrow> JNull)"

definition reactions_of :: "json \<Rightarrow> json list" where
  "reactions_of item =
     (case py_in (lit ''reactions'') item of
        Inr True \<Rightarrow>
          (case subscript item (lit ''reactions'') of
             Inr v \<Rightarrow> (case py_iter v of Inr rs \<Rightarrow> rs | Inl e \<Rightarrow> [])
           | Inl e \<Rightarrow> [])
      | _ \<Rightarrow> [])"

definition actor_of :: "json \<Rightarrow> json" where
  "actor_of reaction = (case subscript reaction (lit ''actor'') of Inr a \<Rightarrow> a | Inl e \<Rightarrow> JNull)"

definition referenced :: "json \<Rightarrow> json list" where
  "referenced item = sender_of item # map actor_of (reactions_of item)"

text \<open>
  The row of \<open>participants\<close> for an entry of the participant map: the entry's id, the
  conversation, the name, and whether the name is in the roster.
\<close>

definition participant_row :: "int \<Rightarrow> json list \<Rightarrow> json \<times> int option \<Rightarrow> row" where
  "participant_row cid roster entry =
     (the (snd entry),
      [SInt cid, sql_of (fst entry), SInt (if fst entry \<in> set roster then 1 else 0)])"

text \<open>
  The participant map and the rows written since the table held \<open>base\<close> go together: one
  row for each entry, in the order of the map, under the entry's id; no name twice, no id
  twice, no id of an older row.
\<close>

definition linked :: "int \<Rightarrow> json list \<Rightarrow> row list \<Rightarrow> conversation \<times> tables \<Rightarrow> bool" where
  "linked cid roster base s \<longleftrightarrow>
     conv_id (fst s) = cid
     \<and> distinct (map fst (participants (fst s)))
     \<and> set roster \<subseteq> set (map fst (participants (fst s)))
     \<and> list_all (\<lambda>e. hashable (fst e) \<and> (\<exists>rid. snd e = Some rid \<and> rid \<notin> set (map fst base)))
          (participants (fst s))
     \<and> distinct (map snd (participants (fst s)))
     \<and> snd s Participants = base @ map (participant_row cid roster) (participants (fst s))"

text \<open>
  The loop over the roster, when the names \<open>seen\<close> are done and the names \<open>todo\<close> are
  left: the entries of the names that are done have their rows.
\<close>

definition roster_inv ::
  "int \<Rightarrow> json list \<Rightarrow> row list \<Rightarrow> json list \<Rightarrow> json list \<Rightarrow> conversation \<times> tables \<Rightarrow> bool" where
  "roster_inv cid roster base seen todo s \<longleftrightarrow>
     (\<exists>A B. participants (fst s) = A @ B \<and> map fst A = seen \<and> map fst B = todo
        \<and> conv_id (fst s) = cid
        \<and> list_all (\<lambda>e. hashable (fst e) \<and> (\<exists>rid. snd e = Some rid \<and> rid \<notin> set (map fst base))) A
        \<and> distinct (map snd A)
        \<and> snd s Participants = base @ map (participant_row cid roster) A)"

text \<open>No row of \<open>messages\<close> has a negative rowid: then the next rowid is not 0.\<close>

definition ids_nonneg :: "conversation \<times> tables \<Rightarrow> bool" where
  "ids_nonneg s \<longleftrightarrow> list_all (\<lambda>row. 0 \<le> fst row) (snd s Messages)"

text \<open>The names of \<open>A\<close> are keys of the participant map.\<close>

definition known :: "json set \<Rightarrow> conversation \<times> tables \<Rightarrow> bool" where
  "known A s \<longleftrightarrow> A \<subseteq> set (map fst (participants (fst s)))"

text \<open>
  The rows written to table \<open>t\<close> since it held \<open>base\<close> go with the names \<open>names\<close>, one row
  for each name and in their order: column \<open>col\<close> of the row holds the id that the
  participant map gives the name.
\<close>

definition refers :: "table \<Rightarrow> nat \<Rightarrow> json list \<Rightarrow> row list \<Rightarrow> conversation \<times> tables \<Rightarrow> bool" where
  "refers t col names base s \<longleftrightarrow>
     (\<exists>rows. snd s t = base @ rows
        \<and> list_all2 (\<lambda>n row. \<exists>sid. snd row ! col = sql_of (py_int_or_none sid)
              \<and> map_of (participants (fst s)) n = Some sid) names rows)"

text \<open>The example conversation once it is saved, and the tables it leaves when they were empty.\<close>

definition example_saved :: conversation where
  "example_saved =
     (example_conversation [example_message1, example_message2] 2)
       \<lparr>participants := [(JStr (lit ''Alice''), Some 1), (JStr (lit ''Bob''), Some 2),
                         (JStr (lit ''Carol''), Some 3)]\<rparr>"

definition example_tables :: tables where
  "example_tables =
     empty_tables
       (Conversations := [(1, [SInt 0, SText (lit ''Trip''), SText (lit ''RegularGroup''),
                               SText (lit ''inbox/trip'')])],
        Participants := [(1, [SInt 0, SText (lit ''Alice''), SInt 1]),
                         (2, [SInt 0, SText (lit ''Bob''), SInt 1]),
                         (3, [SInt 0, SText (lit ''Carol''), SInt 0])],
        Messages := [(1, [SInt 1500000000, SText (lit ''Generic''), SInt 1, SInt 0,
                          SText (lit ''hello'')]),
                     (2, [SInt 1500000060, SText (lit ''Generic''), SInt 2, SInt 0, SNull])],
        Reactions := [(1, [SInt 1, SInt 3, SText [0x2764, 0xFE0F]])],
        Stickers := [(1, [SInt 2, SText (lit ''/stickers/s1.webp'')])])"

(*PROPERTIES*)
section \<open>Properties of the text repair\<close>

lemma lit_simps: "lit [] = []" "lit (c # cs) = of_char c # lit cs"
  by (simp_all add: lit_def)

lemma lit_eq_iff [simp]: "lit a = lit b \<longleftrightarrow> a = b"
  by (simp add: lit_def inj_map_eq_map [OF inj_of_char])

lemma split3:
  fixes c :: nat
  obtains a b d where "c = 4096 * a + 64 * b + d" "b < 64" "d < 64"
    "c div 4096 = a" "(c div 64) mod 64 = b" "c mod 64 = d"
proof -
  have m: "c mod 4096 = 64 * (c div 64 mod 64) + c mod 64"
    using mod_mult2_eq [of c 64 64] by simp
  have "c = 4096 * (c div 4096) + c mod 4096" by simp
  then have "c = 4096 * (c div 4096) + 64 * (c div 64 mod 64) + c mod 64"
    by (simp only: m add.assoc)
  moreover have "c div 64 mod 64 < 64" "c mod 64 < 64" by simp_all
  ultimately show ?thesis using that by blast
qed

lemma split4:
  fixes c :: nat
  obtains a b d e where "c = 262144 * a + 4096 * b + 64 * d + e" "b < 64" "d < 64" "e < 64"
    "c div 262144 = a" "(c div 4096) mod 64 = b" "(c div 64) mod 64 = d" "c mod 64 = e"
proof -
  have m: "c mod 4096 = 64 * (c div 64 mod 64) + c mod 64"
    using mod_mult2_eq [of c 64 64] by simp
  have n: "c mod 262144 = 4096 * (c div 4096 mod 64) + c mod 4096"
    using mod_mult2_eq [of c 4096 64] by simp
  have "c = 262144 * (c div 262144) + c mod 262144" by simp
  then have "c = 262144 * (c div 262144) + 4096 * (c div 4096 mod 64)
                 + 64 * (c div 64 mod 64) + c mod 64"
    by (simp only: m n add.assoc)
  moreover have "c div 4096 mod 64 < 64" "c div 64 mod 64 < 64" "c mod 64 < 64" by simp_all
  ultimately show ?thesis using that by blast
qed

lemma second_ok_3:
  assumes "0x800 \<le> c" "c < 0x10000" "\<not> (0xD800 \<le> c \<and> c \<le> 0xDFFF)"
  shows "0xE0 + c div 4096 \<le> 0xEF \<and> second_ok (0xE0 + c div 4096) (0x80 + (c div 64) mod 64)"
proof -
  obtain a b d where c: "c = 4096 * a + 64 * b + d" "b < 64" "d < 64"
    and e: "c div 4096 = a" "(c div 64) mod 64 = b" "c mod 64 = d"
    by (rule split3)
  have "a < 16" using assms(2) c by linarith
  moreover have "a = 0 \<longrightarrow> 32 \<le> b" using assms(1) c by linarith
  moreover have "a = 13 \<longrightarrow> b < 32" using assms(3) c by linarith
  ultimately show ?thesis unfolding e using c(2) by (auto simp: second_ok_def is_cont_def)
qed

lemma second_ok_4:
  assumes "0x10000 \<le> c" "c < 0x110000"
  shows "0xF0 + c div 262144 \<le> 0xF4 \<and> second_ok (0xF0 + c div 262144) (0x80 + (c div 4096) mod 64)"
proof -
  obtain a b d e where c: "c = 262144 * a + 4096 * b + 64 * d + e" "b < 64" "d < 64" "e < 64"
    and e: "c div 262144 = a" "(c div 4096) mod 64 = b" "(c div 64) mod 64 = d" "c mod 64 = e"
    by (rule split4)
  have "a < 5" using assms(2) c by linarith
  moreover have "a = 0 \<longrightarrow> 16 \<le> b" using assms(1) c by linarith
  moreover have "a = 4 \<longrightarrow> b < 16" using assms(2) c by linarith
  ultimately show ?thesis unfolding e using c(2) by (auto simp: second_ok_def is_cont_def)
qed

lemma is_cont_mod: "is_cont (0x80 + x mod 64)"
proof -
  have "x mod 64 < 64" by simp
  then show ?thesis unfolding is_cont_def by linarith
qed

lemma dec2:
  "0xC2 \<le> b0 \<Longrightarrow> b0 \<le> 0xDF \<Longrightarrow> is_cont b1 \<Longrightarrow>
   utf8_decode (b0 # b1 # rest) = push_cp ((b0 - 0xC0) * 64 + (b1 - 0x80)) (utf8_decode rest)"
  by simp

lemma dec3:
  "0xE0 \<le> b0 \<Longrightarrow> b0 \<le> 0xEF \<Longrightarrow> second_ok b0 b1 \<Longrightarrow> is_cont b2 \<Longrightarrow>
   utf8_decode (b0 # b1 # b2 # rest)
     = push_cp ((b0 - 0xE0) * 4096 + (b1 - 0x80) * 64 + (b2 - 0x80)) (utf8_decode rest)"
  by simp

lemma dec4:
  "0xF0 \<le> b0 \<Longrightarrow> b0 \<le> 0xF4 \<Longrightarrow> second_ok b0 b1 \<Longrightarrow> is_cont b2 \<Longrightarrow> is_cont b3 \<Longrightarrow>
   utf8_decode (b0 # b1 # b2 # b3 # rest)
     = push_cp ((b0 - 0xF0) * 262144 + (b1 - 0x80) * 4096 + (b2 - 0x80) * 64 + (b3 - 0x80))
         (utf8_decode rest)"
  by simp

lemma utf8_decode_encode_cp:
  assumes "utf8_encode_cp c = Inr bs"
  shows "utf8_decode (bs @ rest) = push_cp c (utf8_decode rest)"
proof -
  consider "c < 0x80" | "0x80 \<le> c" "c < 0x800"
    | "0x800 \<le> c" "c < 0x10000" "\<not> (0xD800 \<le> c \<and> c \<le> 0xDFFF)"
    | "0x10000 \<le> c" "c < 0x110000"
    using assms unfolding utf8_encode_cp_def by (meson Inl_Inr_False not_le_imp_less)
  then show ?thesis
  proof cases
    case 1
    then show ?thesis using assms by (auto simp add: utf8_encode_cp_def)
  next
    case 2
    then have bs: "bs = [0xC0 + c div 64, 0x80 + c mod 64]"
      using assms by (auto simp add: utf8_encode_cp_def split: if_splits)
    have c: "c = 64 * (c div 64) + c mod 64" by simp
    have "c div 64 < 32" "2 \<le> c div 64" using 2 by simp_all
    then have r: "0xC2 \<le> 0xC0 + c div 64" "0xC0 + c div 64 \<le> 0xDF" by simp_all
    have v: "(0xC0 + c div 64 - 0xC0) * 64 + (0x80 + c mod 64 - 0x80) = c" by simp
    show ?thesis unfolding bs using dec2 [OF r is_cont_mod, of c rest] by (simp only: v append.simps)
  next
    case 3
    then have bs: "bs = [0xE0 + c div 4096, 0x80 + (c div 64) mod 64, 0x80 + c mod 64]"
      using assms by (auto simp add: utf8_encode_cp_def split: if_splits)
    obtain a b d where c: "c = 4096 * a + 64 * b + d"
      and e: "c div 4096 = a" "(c div 64) mod 64 = b" "c mod 64 = d"
      by (rule split3)
    have v: "(0xE0 + a - 0xE0) * 4096 + (0x80 + b - 0x80) * 64 + (0x80 + d - 0x80) = c"
      unfolding c by simp
    have s: "0xE0 + a \<le> 0xEF" "second_ok (0xE0 + a) (0x80 + b)"
      using second_ok_3 [OF 3] unfolding e by simp_all
    have k: "is_cont (0x80 + d)" using is_cont_mod [of c] unfolding e .
    have "utf8_decode ((0xE0 + a) # (0x80 + b) # (0x80 + d) # rest) = push_cp c (utf8_decode rest)"
      using dec3 [OF _ s k, of rest] unfolding v by simp
    then show ?thesis unfolding bs e by simp
  next
    case 4
    then have bs: "bs = [0xF0 + c div 262144, 0x80 + (c div 4096) mod 64,
             0x80 + (c div 64) mod 64, 0x80 + c mod 64]"
      using assms by (auto simp add: utf8_encode_cp_def split: if_splits)
    obtain a b d f where c: "c = 262144 * a + 4096 * b + 64 * d + f"
      and e: "c div 262144 = a" "(c div 4096) mod 64 = b" "(c div 64) mod 64 = d" "c mod 64 = f"
      by (rule split4)
    have v: "(0xF0 + a - 0xF0) * 262144 + (0x80 + b - 0x80) * 4096 + (0x80 + d - 0x80) * 64
              + (0x80 + f - 0x80) = c"
      unfolding c by simp
    have s: "0xF0 + a \<le> 0xF4" "second_ok (0xF0 + a) (0x80 + b)"
      using second_ok_4 [OF 4] unfolding e by simp_all
    have k: "is_cont (0x80 + d)" "is_cont (0x80 + f)"
      using is_cont_mod [of "c div 64"] is_cont_mod [of c] unfolding e by simp_all
    have "utf8_decode ((0xF0 + a) # (0x80 + b) # (0x80 + d) # (0x80 + f) # rest)
            = push_cp c (utf8_decode rest)"
      using dec4 [OF _ s k, of rest] unfolding v by simp
    then show ?thesis unfolding bs e by simp
  qed
qed

lemma utf8_decode_encode:
  "utf8_encode t = Inr bs \<Longrightarrow> utf8_decode bs = Inr t"
proof (induction t arbitrary: bs)
  case Nil
  then show ?case by simp
next
  case (Cons c cs)
  then obtain b rest where b: "utf8_encode_cp c = Inr b" and rest: "utf8_encode cs = Inr rest"
    and bs: "bs = b @ rest"
    by (auto split: sum.splits)
  show ?case unfolding bs utf8_decode_encode_cp [OF b] using Cons.IH [OF rest]
    by (simp add: push_cp_def)
qed

lemma utf8_encode_cp_bytes:
  assumes "utf8_encode_cp c = Inr b" shows "list_all (\<lambda>b. b < 256) b"
proof -
  have m: "\<And>x::nat. 128 + x mod 64 < 256"
  proof -
    fix x :: nat have "x mod 64 < 64" by simp then show "128 + x mod 64 < 256" by linarith
  qed
  consider "c < 0x80" | "0x80 \<le> c" "c < 0x800"
    | "0x800 \<le> c" "c < 0x10000" "\<not> (0xD800 \<le> c \<and> c \<le> 0xDFFF)"
    | "0x10000 \<le> c" "c < 0x110000"
    using assms unfolding utf8_encode_cp_def by (meson Inl_Inr_False not_le_imp_less)
  then show ?thesis
  proof cases
    case 1 then show ?thesis using assms by (auto simp add: utf8_encode_cp_def)
  next
    case 2
    then have bs: "b = [0xC0 + c div 64, 0x80 + c mod 64]"
      using assms by (auto simp add: utf8_encode_cp_def split: if_splits)
    have "c div 64 < 32" using 2 by simp
    then show ?thesis unfolding bs using m by simp
  next
    case 3
    then have bs: "b = [0xE0 + c div 4096, 0x80 + (c div 64) mod 64, 0x80 + c mod 64]"
      using assms by (auto simp add: utf8_encode_cp_def split: if_splits)
    have "c div 4096 < 16" using 3 by simp
    then show ?thesis unfolding bs using m by simp
  next
    case 4
    then have bs: "b = [0xF0 + c div 262144, 0x80 + (c div 4096) mod 64,
             0x80 + (c div 64) mod 64, 0x80 + c mod 64]"
      using assms by (auto simp add: utf8_encode_cp_def split: if_splits)
    have "c div 262144 < 5" using 4 by simp
    then show ?thesis unfolding bs using m by simp
  qed
qed

lemma utf8_encode_bytes:
  "utf8_encode t = Inr bs \<Longrightarrow> list_all (\<lambda>b. b < 256) bs"
proof (induction t arbitrary: bs)
  case Nil
  then show ?case by simp
next
  case (Cons c cs)
  then obtain b rest where b: "utf8_encode_cp c = Inr b" and rest: "utf8_encode cs = Inr rest"
    and bs: "bs = b @ rest"
    by (auto split: sum.splits)
  show ?case unfolding bs using Cons.IH [OF rest] utf8_encode_cp_bytes [OF b] by simp
qed

lemma utf8_decode_ascii:
  "list_all (\<lambda>c. c < 128) s \<Longrightarrow> utf8_decode s = Inr s"
  by (induction s) (simp_all add: push_cp_def)

lemma text_repair_mojibake:
  assumes "mojibake t = Inr s" shows "text_repair s = Inr t"
proof -
  from assms obtain bs where bs: "utf8_encode t = Inr bs" and s: "s = latin1_decode bs"
    by (auto simp: mojibake_def split: sum.splits)
  have "latin1_encode s = Inr bs"
    using utf8_encode_bytes [OF bs] by (simp add: s latin1_decode_def latin1_encode_def)
  then show ?thesis by (simp add: text_repair_def utf8_decode_encode [OF bs])
qed

lemma text_repair_ascii:
  assumes "list_all (\<lambda>c. c < 128) a" shows "text_repair a = Inr a"
proof -
  have "list_all (\<lambda>c. c < 256) a"
    using assms by (induction a) auto
  then show ?thesis by (simp add: text_repair_def latin1_encode_def utf8_decode_ascii [OF assms])
qed

lemma map_result_inverse:
  assumes "\<And>x y. f x = Inr y \<Longrightarrow> g y = Inr x"
  shows "map_result f xs = Inr ys \<Longrightarrow> map_result g ys = Inr xs"
proof (induction xs arbitrary: ys)
  case Nil
  then show ?case by simp
next
  case (Cons x xs)
  then obtain y ys' where y: "f x = Inr y" and ys': "map_result f xs = Inr ys'" and ys: "ys = y # ys'"
    by (auto split: sum.splits)
  show ?case unfolding ys using assms [OF y] Cons.IH [OF ys'] by simp
qed

lemma repair_mojibake_element:
  "mojibake_element x = Inr y \<Longrightarrow> repair_element y = Inr x"
  by (cases x) (auto split: sum.splits simp: text_repair_mojibake)

lemma repair_mojibake_field:
  "mojibake_field x = Inr y \<Longrightarrow> repair_field y = Inr x"
proof (cases x)
  case (JStr t)
  assume "mojibake_field x = Inr y"
  then show ?thesis using JStr by (auto split: sum.splits simp: text_repair_mojibake)
next
  case (JList xs)
  assume "mojibake_field x = Inr y"
  then obtain ys where ys: "map_result mojibake_element xs = Inr ys" and y: "y = JList ys"
    using JList by (auto split: sum.splits)
  have "map_result repair_element ys = Inr xs"
    using map_result_inverse [of mojibake_element repair_element, OF repair_mojibake_element ys] .
  then show ?thesis by (simp add: y JList)
qed auto

lemma parseJsonObject_mojibake:
  assumes "mojibake_object orig = Inr obj" shows "parseJsonObject obj = Inr orig"
proof -
  let ?f = "\<lambda>(key, v). case mojibake_field v of Inl e \<Rightarrow> Inl e | Inr v' \<Rightarrow> Inr (key, v')"
  let ?g = "\<lambda>(key, v). case repair_field v of Inl e \<Rightarrow> Inl e | Inr v' \<Rightarrow> Inr (key, v')"
  have "\<And>x y. ?f x = Inr y \<Longrightarrow> ?g y = Inr x"
    by (auto split: sum.splits prod.splits dest: repair_mojibake_field)
  from map_result_inverse [of ?f ?g, OF this] assms show ?thesis
    by (simp add: mojibake_object_def parseJsonObject_def)
qed

text \<open>
  Claim C1.  A string that is the mojibake of a text (the text encoded as UTF-8, the bytes
  decoded as Latin-1) is repaired to that text; a string of ASCII characters is repaired to
  itself; and \<open>parseJsonObject\<close> gives back the object whose string fields and string
  elements of list fields were so damaged.
\<close>

theorem text_repair_recovers:
  "(mojibake t = Inr s \<longrightarrow> text_repair s = Inr t)
   \<and> (list_all (\<lambda>c. c < 128) a \<longrightarrow> text_repair a = Inr a)
   \<and> (mojibake_object orig = Inr obj \<longrightarrow> parseJsonObject obj = Inr orig)"
  using text_repair_mojibake text_repair_ascii parseJsonObject_mojibake by blast


theorem text_repair_recovers_witness:
  "mojibake [0x2764, 0xFE0F] = Inr [0xE2, 0x9D, 0xA4, 0xEF, 0xB8, 0x8F]
   \<and> text_repair [0xE2, 0x9D, 0xA4, 0xEF, 0xB8, 0x8F] = Inr [0x2764, 0xFE0F]
   \<and> list_all (\<lambda>c. c < 128) (lit ''Bob'')
   \<and> text_repair (lit ''Bob'') = Inr (lit ''Bob'')
   \<and> mojibake_object [(lit ''reaction'', JStr [0x2764, 0xFE0F]), (lit ''tags'', JList [JStr [0xE9], JInt 1])]
       = Inr [(lit ''reaction'', JStr [0xE2, 0x9D, 0xA4, 0xEF, 0xB8, 0x8F]),
              (lit ''tags'', JList [JStr [0xC3, 0xA9], JInt 1])]
   \<and> parseJsonObject [(lit ''reaction'', JStr [0xE2, 0x9D, 0xA4, 0xEF, 0xB8, 0x8F]),
              (lit ''tags'', JList [JStr [0xC3, 0xA9], JInt 1])]
       = Inr [(lit ''reaction'', JStr [0x2764, 0xFE0F]), (lit ''tags'', JList [JStr [0xE9], JInt 1])]"
proof -
  have m: "mojibake [0x2764, 0xFE0F] = Inr [0xE2, 0x9D, 0xA4, 0xEF, 0xB8, 0x8F]"
    by (simp add: mojibake_def utf8_encode_cp_def latin1_decode_def)
  have n: "mojibake [0xE9] = Inr [0xC3, 0xA9]"
    by (simp add: mojibake_def utf8_encode_cp_def latin1_decode_def)
  have a: "list_all (\<lambda>c. c < 128) (lit ''Bob'')" by (simp add: lit_simps)
  have o: "mojibake_object [(lit ''reaction'', JStr [0x2764, 0xFE0F]), (lit ''tags'', JList [JStr [0xE9], JInt 1])]
       = Inr [(lit ''reaction'', JStr [0xE2, 0x9D, 0xA4, 0xEF, 0xB8, 0x8F]),
              (lit ''tags'', JList [JStr [0xC3, 0xA9], JInt 1])]"
    by (simp add: mojibake_object_def m n)
  show ?thesis
    using text_repair_recovers [of "[0x2764, 0xFE0F]" "[0xE2, 0x9D, 0xA4, 0xEF, 0xB8, 0x8F]"
        "lit ''Bob''" "[(lit ''reaction'', JStr [0x2764, 0xFE0F]), (lit ''tags'', JList [JStr [0xE9], JInt 1])]"
        "[(lit ''reaction'', JStr [0xE2, 0x9D, 0xA4, 0xEF, 0xB8, 0x8F]),
              (lit ''tags'', JList [JStr [0xC3, 0xA9], JInt 1])]"] m a o
    by blast
qed

lemma map_result_fails:
  "x \<in> set xs \<Longrightarrow> f x = Inl e \<Longrightarrow> \<exists>e'. map_result f xs = Inl e'"
  by (induction xs) (auto split: sum.splits)

lemma map_result_error:
  assumes "\<And>x e. f x = Inl e \<Longrightarrow> P e"
  shows "map_result f xs = Inl e \<Longrightarrow> P e"
  using assms by (induction xs arbitrary: e) (auto split: sum.splits)

lemma map_result_set:
  "map_result f xs = Inr ys \<Longrightarrow> x \<in> set xs \<Longrightarrow> \<exists>y \<in> set ys. f x = Inr y"
  by (induction xs arbitrary: ys) (auto split: sum.splits)


lemma push_cp_Inl: "push_cp c r = Inl e \<longleftrightarrow> r = Inl e"
  by (cases r) (simp_all add: push_cp_def)

lemma utf8_decode_error: "utf8_decode bs = Inl e \<Longrightarrow> e = UnicodeDecodeError"
proof (induction bs arbitrary: e rule: utf8_decode.induct)
  case 1
  then show ?case by simp
next
  case (2 b0 bs)
  note eq = utf8_decode.simps(2) [of b0 bs]
  show ?case
  proof (cases "b0 < 0x80")
    case True
    have "utf8_decode (b0 # bs) = push_cp b0 (utf8_decode bs)"
      by (simp only: eq True if_True)
    with 2(5) have "push_cp b0 (utf8_decode bs) = Inl e" by (simp only:)
    then have "utf8_decode bs = Inl e" by (simp only: push_cp_Inl)
    then show ?thesis by (rule 2(1) [OF True])
  next
    case F1: False
    show ?thesis
    proof (cases "0xC2 \<le> b0 \<and> b0 \<le> 0xDF")
      case True
      have "utf8_decode (b0 # bs) = (case bs of
           b1 # r \<Rightarrow>
             if is_cont b1
             then push_cp ((b0 - 0xC0) * 64 + (b1 - 0x80)) (utf8_decode r)
             else Inl UnicodeDecodeError
         | _ \<Rightarrow> Inl UnicodeDecodeError)"
        by (simp only: eq F1 True if_True if_False simp_thms)
      with 2(5) have "(case bs of
           b1 # r \<Rightarrow>
             if is_cont b1
             then push_cp ((b0 - 0xC0) * 64 + (b1 - 0x80)) (utf8_decode r)
             else Inl UnicodeDecodeError
         | _ \<Rightarrow> Inl UnicodeDecodeError) = Inl e" by (simp only:)
      then show ?thesis using 2(2) [OF F1 True]
        by (auto simp: push_cp_Inl split: if_splits list.splits)
    next
      case F2: False
      show ?thesis
      proof (cases "0xE0 \<le> b0 \<and> b0 \<le> 0xEF")
        case True
        have "utf8_decode (b0 # bs) = (case bs of
           b1 # b2 # r \<Rightarrow>
             if second_ok b0 b1 \<and> is_cont b2
             then push_cp ((b0 - 0xE0) * 4096 + (b1 - 0x80) * 64 + (b2 - 0x80)) (utf8_decode r)
             else Inl UnicodeDecodeError
         | _ \<Rightarrow> Inl UnicodeDecodeError)"
          by (simp only: eq F1 F2 True if_True if_False simp_thms)
        with 2(5) have "(case bs of
           b1 # b2 # r \<Rightarrow>
             if second_ok b0 b1 \<and> is_cont b2
             then push_cp ((b0 - 0xE0) * 4096 + (b1 - 0x80) * 64 + (b2 - 0x80)) (utf8_decode r)
             else Inl UnicodeDecodeError
         | _ \<Rightarrow> Inl UnicodeDecodeError) = Inl e" by (simp only:)
        then show ?thesis using 2(3) [OF F1 F2 True]
          by (auto simp: push_cp_Inl split: if_splits list.splits)
      next
        case F3: False
        show ?thesis
        proof (cases "0xF0 \<le> b0 \<and> b0 \<le> 0xF4")
          case True
          have "utf8_decode (b0 # bs) = (case bs of
           b1 # b2 # b3 # r \<Rightarrow>
             if second_ok b0 b1 \<and> is_cont b2 \<and> is_cont b3
             then push_cp ((b0 - 0xF0) * 262144 + (b1 - 0x80) * 4096
                           + (b2 - 0x80) * 64 + (b3 - 0x80)) (utf8_decode r)
             else Inl UnicodeDecodeError
         | _ \<Rightarrow> Inl UnicodeDecodeError)"
            by (simp only: eq F1 F2 F3 True if_True if_False simp_thms)
          with 2(5) have "(case bs of
           b1 # b2 # b3 # r \<Rightarrow>
             if second_ok b0 b1 \<and> is_cont b2 \<and> is_cont b3
             then push_cp ((b0 - 0xF0) * 262144 + (b1 - 0x80) * 4096
                           + (b2 - 0x80) * 64 + (b3 - 0x80)) (utf8_decode r)
             else Inl UnicodeDecodeError
         | _ \<Rightarrow> Inl UnicodeDecodeError) = Inl e" by (simp only:)
          then show ?thesis using 2(4) [OF F1 F2 F3 True]
            by (auto simp: push_cp_Inl split: if_splits list.splits)
        next
          case False
          have "utf8_decode (b0 # bs) = Inl UnicodeDecodeError"
            by (simp only: eq F1 F2 F3 False if_False simp_thms)
          with 2(5) show ?thesis by (simp only: sum.inject)
        qed
      qed
    qed
  qed
qed

lemma text_repair_error: "text_repair s = Inl e \<Longrightarrow> encoding_error e"
  by (auto simp: text_repair_def latin1_encode_def encoding_error_def
      split: if_splits dest: utf8_decode_error)

lemma text_repair_above:
  "\<not> list_all (\<lambda>c. c < 256) s \<Longrightarrow> text_repair s = Inl UnicodeEncodeError"
  by (simp add: text_repair_def latin1_encode_def)

lemma repair_element_error: "repair_element x = Inl e \<Longrightarrow> encoding_error e"
  by (cases x) (auto split: sum.splits dest: text_repair_error)

lemma repair_field_error: "repair_field x = Inl e \<Longrightarrow> encoding_error e"
  by (cases x) (auto split: sum.splits dest: text_repair_error
       intro: map_result_error [of repair_element encoding_error, OF repair_element_error])

lemma parseJsonObject_error: "parseJsonObject obj = Inl e \<Longrightarrow> encoding_error e"
  unfolding parseJsonObject_def
  by (rule map_result_error [where P = encoding_error])
     (auto split: sum.splits prod.splits dest: repair_field_error)

lemma repair_field_above:
  assumes "\<not> list_all (\<lambda>c. c < 256) s"
  shows "\<exists>e. repair_field (JStr s) = Inl e"
    and "JStr s \<in> set xs \<Longrightarrow> \<exists>e. repair_field (JList xs) = Inl e"
proof -
  show "\<exists>e. repair_field (JStr s) = Inl e" by (simp add: text_repair_above [OF assms])
  assume "JStr s \<in> set xs"
  moreover have "repair_element (JStr s) = Inl UnicodeEncodeError"
    by (simp add: text_repair_above [OF assms])
  ultimately obtain e where "map_result repair_element xs = Inl e"
    using map_result_fails [of "JStr s" xs repair_element UnicodeEncodeError] by blast
  then show "\<exists>e. repair_field (JList xs) = Inl e" by simp
qed

lemma parseJsonObject_above:
  assumes "\<not> list_all (\<lambda>c. c < 256) s"
    and "(key, JStr s) \<in> set obj \<or> (key, JList xs) \<in> set obj \<and> JStr s \<in> set xs"
  shows "\<exists>e. parseJsonObject obj = Inl e \<and> encoding_error e"
proof -
  let ?f = "\<lambda>(key, v). case repair_field v of Inl e \<Rightarrow> Inl e | Inr v' \<Rightarrow> Inr (key, v')"
  obtain v e where "(key, v) \<in> set obj" "repair_field v = Inl e"
    using assms repair_field_above [OF assms(1)] by blast
  then have "(key, v) \<in> set obj" "?f (key, v) = Inl e" by simp_all
  then obtain e' where "parseJsonObject obj = Inl e'"
    unfolding parseJsonObject_def using map_result_fails [of "(key, v)" obj ?f e] by blast
  then show ?thesis using parseJsonObject_error by blast
qed

lemma loadJson_error:
  "loadJson v = Inl e \<Longrightarrow> encoding_error e"
  "loadJson_list vs = Inl e \<Longrightarrow> encoding_error e"
  "loadJson_items kvs = Inl e \<Longrightarrow> encoding_error e"
  by (induction v and vs and kvs arbitrary: e and e and e rule: loadJson_loadJson_list_loadJson_items.induct)
     (auto split: sum.splits dest: parseJsonObject_error)

lemma loadJson_list_keeps_str:
  "loadJson_list xs = Inr ys \<Longrightarrow> JStr s \<in> set xs \<Longrightarrow> JStr s \<in> set ys"
  by (induction xs arbitrary: ys) (auto split: sum.splits)

lemma loadJson_items_keeps:
  "loadJson_items kvs = Inr kvs' \<Longrightarrow> (key, v) \<in> set kvs \<Longrightarrow>
     \<exists>v'. (key, v') \<in> set kvs' \<and> loadJson v = Inr v'"
  by (induction kvs arbitrary: kvs') (auto split: sum.splits)

lemma loadJson_above:
  assumes "\<not> list_all (\<lambda>c. c < 256) s"
    and "(key, JStr s) \<in> set obj \<or> (key, JList xs) \<in> set obj \<and> JStr s \<in> set xs"
  shows "\<exists>e. loadJson (JObj obj) = Inl e \<and> encoding_error e"
proof (cases "loadJson_items obj")
  case (Inl e)
  then show ?thesis using loadJson_error(3) by simp
next
  case (Inr obj')
  have "(key, JStr s) \<in> set obj' \<or> (\<exists>ys. (key, JList ys) \<in> set obj' \<and> JStr s \<in> set ys)"
    using assms(2)
  proof
    assume "(key, JStr s) \<in> set obj"
    from loadJson_items_keeps [OF Inr this] show ?thesis by simp
  next
    assume a: "(key, JList xs) \<in> set obj \<and> JStr s \<in> set xs"
    then obtain v' where v': "(key, v') \<in> set obj'" "loadJson (JList xs) = Inr v'"
      using loadJson_items_keeps [OF Inr] by blast
    then obtain ys where "loadJson_list xs = Inr ys" "v' = JList ys"
      by (auto split: sum.splits)
    then show ?thesis using v' a loadJson_list_keeps_str by blast
  qed
  then obtain e where "parseJsonObject obj' = Inl e" "encoding_error e"
    using parseJsonObject_above [OF assms(1)] by blast
  then show ?thesis using Inr by simp
qed

text \<open>
  Claim C10.  The repair returns only for strings whose code points are all at most U+00FF.
  A string with a code point above U+00FF makes it raise \<open>UnicodeEncodeError\<close>, and an
  object that holds such a string as the value of a field, or as an element of a field that
  is a list, makes \<open>parseJsonObject\<close> and \<open>loadJson\<close> raise an encoding error.
\<close>

theorem text_repair_rejects_above_latin1:
  "(text_repair s = Inr r \<longrightarrow> list_all (\<lambda>c. c < 256) s)
   \<and> (\<not> list_all (\<lambda>c. c < 256) s \<longrightarrow>
        text_repair s = Inl UnicodeEncodeError
        \<and> ((key, JStr s) \<in> set obj \<or> (key, JList xs) \<in> set obj \<and> JStr s \<in> set xs \<longrightarrow>
             (\<exists>e. parseJsonObject obj = Inl e \<and> encoding_error e)
             \<and> (\<exists>e. loadJson (JObj obj) = Inl e \<and> encoding_error e)))"
proof (intro conjI impI)
  assume "text_repair s = Inr r"
  then show "list_all (\<lambda>c. c < 256) s" using text_repair_above [of s] by (cases "list_all (\<lambda>c. c < 256) s") simp_all
next
  assume "\<not> list_all (\<lambda>c. c < 256) s"
  then show "text_repair s = Inl UnicodeEncodeError" by (rule text_repair_above)
next
  assume "\<not> list_all (\<lambda>c. c < 256) s"
    "(key, JStr s) \<in> set obj \<or> (key, JList xs) \<in> set obj \<and> JStr s \<in> set xs"
  then show "\<exists>e. parseJsonObject obj = Inl e \<and> encoding_error e" by (rule parseJsonObject_above)
next
  assume "\<not> list_all (\<lambda>c. c < 256) s"
    "(key, JStr s) \<in> set obj \<or> (key, JList xs) \<in> set obj \<and> JStr s \<in> set xs"
  then show "\<exists>e. loadJson (JObj obj) = Inl e \<and> encoding_error e" by (rule loadJson_above)
qed

theorem text_repair_rejects_above_latin1_witness:
  "text_repair (lit ''ok'') = Inr (lit ''ok'') \<and> list_all (\<lambda>c. c < 256) (lit ''ok'')
   \<and> \<not> list_all (\<lambda>c. c < 256) [0x2764::nat]
   \<and> text_repair [0x2764] = Inl UnicodeEncodeError
   \<and> (lit ''reaction'', JStr [0x2764]) \<in> set [(lit ''actor'', JStr (lit ''Carol'')), (lit ''reaction'', JStr [0x2764])]
   \<and> parseJsonObject [(lit ''actor'', JStr (lit ''Carol'')), (lit ''reaction'', JStr [0x2764])]
        = Inl UnicodeEncodeError
   \<and> loadJson (JObj [(lit ''actor'', JStr (lit ''Carol'')), (lit ''reaction'', JStr [0x2764])])
        = Inl UnicodeEncodeError"
proof -
  have a: "text_repair (lit ''ok'') = Inr (lit ''ok'')"
    by (simp add: text_repair_def latin1_encode_def push_cp_def lit_simps)
  have b: "\<not> list_all (\<lambda>c. c < 256) [0x2764::nat]" by simp
  have c: "(lit ''reaction'', JStr [0x2764]) \<in> set [(lit ''actor'', JStr (lit ''Carol'')), (lit ''reaction'', JStr [0x2764])]"
    by simp
  have d: "text_repair (lit ''Carol'') = Inr (lit ''Carol'')"
    by (simp add: text_repair_def latin1_encode_def push_cp_def lit_simps)
  have e: "parseJsonObject [(lit ''actor'', JStr (lit ''Carol'')), (lit ''reaction'', JStr [0x2764])]
        = Inl UnicodeEncodeError"
    by (simp add: parseJsonObject_def d text_repair_above)
  have f: "loadJson (JObj [(lit ''actor'', JStr (lit ''Carol'')), (lit ''reaction'', JStr [0x2764])])
        = Inl UnicodeEncodeError"
    by (simp add: parseJsonObject_def d text_repair_above)
  show ?thesis
    using text_repair_rejects_above_latin1 [of "lit ''ok''" "lit ''ok''"]
      text_repair_rejects_above_latin1 [of "[0x2764]" "[]" "lit ''reaction''"
        "[(lit ''actor'', JStr (lit ''Carol'')), (lit ''reaction'', JStr [0x2764])]" "[]"]
      a b c e f
    by simp
qed

section \<open>Properties of the discovery\<close>

lemma starts_with_iff: "starts_with hay needle \<longleftrightarrow> (\<exists>post. hay = needle @ post)"
  by (induction hay needle rule: starts_with.induct) auto

lemma str_contains_iff:
  "str_contains hay needle \<longleftrightarrow> (\<exists>pre post. hay = pre @ needle @ post)"
proof (induction hay)
  case Nil
  then show ?case by auto
next
  case (Cons h hs)
  show ?case
  proof
    assume "str_contains (h # hs) needle"
    then consider "starts_with (h # hs) needle" | "str_contains hs needle" by auto
    then show "\<exists>pre post. h # hs = pre @ needle @ post"
    proof cases
      case 1
      then obtain post where "h # hs = [] @ needle @ post" by (auto simp: starts_with_iff)
      then show ?thesis by blast
    next
      case 2
      then obtain pre post where "hs = pre @ needle @ post" using Cons.IH by blast
      then have "h # hs = (h # pre) @ needle @ post" by simp
      then show ?thesis by blast
    qed
  next
    assume "\<exists>pre post. h # hs = pre @ needle @ post"
    then obtain pre post where e: "h # hs = pre @ needle @ post" by blast
    show "str_contains (h # hs) needle"
    proof (cases pre)
      case Nil
      then have "starts_with (h # hs) needle" using e by (auto simp: starts_with_iff)
      then show ?thesis by simp
    next
      case (Cons p ps)
      then have "hs = ps @ needle @ post" using e by simp
      then have "str_contains hs needle" using Cons.IH by blast
      then show ?thesis by simp
    qed
  qed
qed

lemma ends_with_iff: "ends_with name suffix \<longleftrightarrow> (\<exists>pre. name = pre @ suffix)"
proof -
  have "(\<exists>post. rev name = rev suffix @ post) \<longleftrightarrow> (\<exists>pre. name = pre @ suffix)"
  proof
    assume "\<exists>post. rev name = rev suffix @ post"
    then obtain post where "rev name = rev suffix @ post" by blast
    then have "rev (rev name) = rev (rev suffix @ post)" by simp
    then have "name = rev post @ suffix" by simp
    then show "\<exists>pre. name = pre @ suffix" by blast
  next
    assume "\<exists>pre. name = pre @ suffix"
    then obtain pre where "name = pre @ suffix" by blast
    then have "rev name = rev suffix @ rev pre" by simp
    then show "\<exists>post. rev name = rev suffix @ post" by blast
  qed
  then show ?thesis by (simp add: ends_with_def starts_with_iff)
qed

text \<open>
  Claim C9, as amended.  \<open>getMessagePaths\<close> returns, in the order of the listing and each
  behind the directory and a backslash, the files whose name has \<open>.json\<close> somewhere in it
  and \<open>message\<close> somewhere in it.
\<close>

theorem getMessagePaths_substring:
  "getMessagePaths dir files =
     map (\<lambda>x. dir @ [92] @ x)
       (filter (\<lambda>name. (\<exists>pre post. name = pre @ lit ''.json'' @ post)
                      \<and> (\<exists>pre post. name = pre @ lit ''message'' @ post)) files)"
proof -
  have "isMessageFile = (\<lambda>name. (\<exists>pre post. name = pre @ lit ''.json'' @ post)
                      \<and> (\<exists>pre post. name = pre @ lit ''message'' @ post))"
    by (rule ext) (simp only: isMessageFile_def str_contains_iff)
  then show ?thesis by (simp only: getMessagePaths_def)
qed

text \<open>
  Claim C9 as stated fails: a name with \<open>.json\<close> in the middle is returned although it
  does not end with \<open>.json\<close>.
\<close>

theorem getMessagePaths_suffix_counterexample:
  "getMessagePaths (lit ''inbox'') [lit ''message_1.json.bak'', lit ''message_2.json'']
     = [lit ''inbox'' @ [92] @ lit ''message_1.json.bak'', lit ''inbox'' @ [92] @ lit ''message_2.json'']
   \<and> \<not> ends_with (lit ''message_1.json.bak'') (lit ''.json'')"
  by (simp add: getMessagePaths_def isMessageFile_def ends_with_def lit_simps)

section \<open>Properties of the merge\<close>

lemma add_messages_result:
  "add_messages c doc = Inr c' \<Longrightarrow>
     c' = c\<lparr>chunks_loaded := chunks_loaded c + 1, messages := messages c @ doc_messages doc\<rparr>"
  by (auto simp: add_messages_def doc_messages_def split: sum.splits)

lemma first_chunk_result:
  "first_chunk c doc md = Inr c' \<Longrightarrow>
     metadata c' = md \<and> messages c' = messages c \<and> chunks_loaded c' = chunks_loaded c"
  by (auto simp: first_chunk_def split: sum.splits)

lemma doc_metadata_nonempty: "doc_metadata doc = Inr md \<Longrightarrow> md \<noteq> []"
  by (auto simp: doc_metadata_def split: sum.splits)

lemma loadMessages_result:
  assumes "loadMessages c doc = Inr c'"
  shows "messages c' = messages c @ doc_messages doc"
    and "chunks_loaded c' = chunks_loaded c + 1"
    and "metadata c' \<noteq> []"
    and "metadata c \<noteq> [] \<Longrightarrow> metadata c' = metadata c \<and> participants c' = participants c"
proof -
  from assms obtain md c1 where md: "doc_metadata doc = Inr md"
    and c1: "(if metadata c = [] then first_chunk c doc md
              else if dict_eq (metadata c) md then Inr c else Inl AssertionError) = Inr c1"
    and c': "add_messages c1 doc = Inr c'"
    by (auto simp: loadMessages_def split: sum.splits)
  note r = add_messages_result [OF c']
  have k: "messages c1 = messages c \<and> chunks_loaded c1 = chunks_loaded c \<and> metadata c1 \<noteq> []
     \<and> (metadata c \<noteq> [] \<longrightarrow> c1 = c)"
    using c1 first_chunk_result [of c doc md c1] doc_metadata_nonempty [OF md]
    by (auto split: if_splits)
  show "messages c' = messages c @ doc_messages doc" using r k by simp
  show "chunks_loaded c' = chunks_loaded c + 1" using r k by simp
  show "metadata c' \<noteq> []" using r k by simp
  show "metadata c \<noteq> [] \<Longrightarrow> metadata c' = metadata c \<and> participants c' = participants c"
    using r k by simp
qed

lemma load_all_result:
  "load_all c docs = Inr c' \<Longrightarrow>
     messages c' = messages c @ concat (map doc_messages docs)
     \<and> chunks_loaded c' = chunks_loaded c + int (length docs)"
proof (induction docs arbitrary: c)
  case Nil
  then show ?case by simp
next
  case (Cons doc docs)
  then obtain c1 where c1: "loadMessages c doc = Inr c1" and r: "load_all c1 docs = Inr c'"
    by (auto split: sum.splits)
  show ?case using Cons.IH [OF r] loadMessages_result(1,2) [OF c1] by simp
qed

lemma loadMessages_same_metadata:
  assumes "metadata c \<noteq> []" "doc_metadata doc = Inr md" "dict_eq (metadata c) md"
    "subscript doc (lit ''messages'') = Inr (JList ms)"
  shows "loadMessages c doc = Inr (c\<lparr>chunks_loaded := chunks_loaded c + 1, messages := messages c @ ms\<rparr>)"
  using assms by (simp add: loadMessages_def add_messages_def)

lemma loadMessages_other_metadata:
  assumes "metadata c \<noteq> []" "doc_metadata doc = Inr md" "\<not> dict_eq (metadata c) md"
  shows "loadMessages c doc = Inl AssertionError"
  using assms by (simp add: loadMessages_def)

lemma load_all_succeeds:
  assumes "metadata c \<noteq> []"
    and "\<forall>doc \<in> set docs. \<exists>md ms. doc_metadata doc = Inr md \<and> dict_eq (metadata c) md
           \<and> subscript doc (lit ''messages'') = Inr (JList ms)"
  shows "\<exists>c'. load_all c docs = Inr c'"
  using assms
proof (induction docs arbitrary: c)
  case Nil
  then show ?case by simp
next
  case (Cons doc docs)
  then obtain md ms where d: "doc_metadata doc = Inr md" "dict_eq (metadata c) md"
    "subscript doc (lit ''messages'') = Inr (JList ms)" by auto
  let ?c1 = "c\<lparr>chunks_loaded := chunks_loaded c + 1, messages := messages c @ ms\<rparr>"
  have l: "loadMessages c doc = Inr ?c1"
    using loadMessages_same_metadata [OF Cons.prems(1) d] .
  have "metadata ?c1 \<noteq> []" using Cons.prems(1) by simp
  moreover have "\<forall>doc \<in> set docs. \<exists>md ms. doc_metadata doc = Inr md \<and> dict_eq (metadata ?c1) md
           \<and> subscript doc (lit ''messages'') = Inr (JList ms)"
    using Cons.prems(2) by simp
  ultimately obtain c' where "load_all ?c1 docs = Inr c'" using Cons.IH by blast
  then show ?case using l by simp
qed

lemma dict_eq_strings:
  "dict_eq [(lit ''title'', JStr a), (lit ''thread_type'', JStr b), (lit ''thread_path'', JStr p)]
           [(lit ''title'', JStr a'), (lit ''thread_type'', JStr b'), (lit ''thread_path'', JStr p')]
   \<longleftrightarrow> a = a' \<and> b = b' \<and> p = p'"
  by (auto simp: dict_eq_def)


lemma example_first:
  "loadMessages (Conversation (lit ''messages/trip'')) (example_chunk (lit ''Trip'') [example_message1])
     = Inr (example_conversation [example_message1] 1)"
  by (simp add: loadMessages_def doc_metadata_def first_chunk_def add_messages_def
      example_chunk_def example_conversation_def example_metadata_def Conversation_def)

lemma example_second:
  "loadMessages (example_conversation [example_message1] 1) (example_chunk (lit ''Trip'') [example_message2])
     = Inr (example_conversation [example_message1, example_message2] 2)"
  by (simp add: loadMessages_def doc_metadata_def add_messages_def dict_eq_def
      example_chunk_def example_conversation_def example_metadata_def)

text \<open>
  Claim C2.  When the chunk documents are merged into a conversation one at a time and no
  merge raises, the message sequence is the old one followed by the messages of the
  documents in chunk order, and the chunk counter has grown by the number of documents.  The
  messages of a document whose \<open>messages\<close> is a list are that list.  The merges do not
  raise when the conversation has metadata and every document carries equal metadata and a
  list of messages.
\<close>

theorem load_all_concatenates:
  "(load_all c docs = Inr c' \<longrightarrow>
      messages c' = messages c @ concat (map doc_messages docs)
      \<and> chunks_loaded c' = chunks_loaded c + int (length docs))
   \<and> (subscript doc (lit ''messages'') = Inr (JList ms) \<longrightarrow> doc_messages doc = ms)
   \<and> (metadata c \<noteq> []
        \<and> (\<forall>d \<in> set docs. \<exists>md ms. doc_metadata d = Inr md \<and> dict_eq (metadata c) md
               \<and> subscript d (lit ''messages'') = Inr (JList ms))
      \<longrightarrow> (\<exists>c'. load_all c docs = Inr c'))"
proof (intro conjI impI)
  assume "load_all c docs = Inr c'"
  from load_all_result [OF this]
  show "messages c' = messages c @ concat (map doc_messages docs)"
    and "chunks_loaded c' = chunks_loaded c + int (length docs)" by simp_all
next
  assume "subscript doc (lit ''messages'') = Inr (JList ms)"
  then show "doc_messages doc = ms" by (simp add: doc_messages_def)
next
  assume "metadata c \<noteq> []
        \<and> (\<forall>d \<in> set docs. \<exists>md ms. doc_metadata d = Inr md \<and> dict_eq (metadata c) md
               \<and> subscript d (lit ''messages'') = Inr (JList ms))"
  then show "\<exists>c'. load_all c docs = Inr c'" using load_all_succeeds [of c docs] by blast
qed

theorem load_all_concatenates_witness:
  "load_all (Conversation (lit ''messages/trip''))
       [example_chunk (lit ''Trip'') [example_message1], example_chunk (lit ''Trip'') [example_message2]]
     = Inr (example_conversation [example_message1, example_message2] 2)
   \<and> messages (example_conversation [example_message1, example_message2] 2)
       = [example_message1, example_message2]
   \<and> chunks_loaded (example_conversation [example_message1, example_message2] 2) = 2
   \<and> doc_messages (example_chunk (lit ''Trip'') [example_message2]) = [example_message2]
   \<and> metadata (example_conversation [example_message1] 1) \<noteq> []
   \<and> (\<exists>c'. load_all (example_conversation [example_message1] 1)
              [example_chunk (lit ''Trip'') [example_message2]] = Inr c')"
proof -
  let ?c0 = "Conversation (lit ''messages/trip'')"
  let ?d1 = "example_chunk (lit ''Trip'') [example_message1]"
  let ?d2 = "example_chunk (lit ''Trip'') [example_message2]"
  let ?c1 = "example_conversation [example_message1] 1"
  let ?c2 = "example_conversation [example_message1, example_message2] 2"
  have a: "load_all ?c0 [?d1, ?d2] = Inr ?c2" by (simp add: example_first example_second)
  have b: "subscript ?d2 (lit ''messages'') = Inr (JList [example_message2])"
    by (simp add: example_chunk_def)
  have m: "metadata ?c1 \<noteq> []" by (simp add: example_conversation_def example_metadata_def)
  have e: "\<forall>d \<in> set [?d2]. \<exists>md ms. doc_metadata d = Inr md \<and> dict_eq (metadata ?c1) md
               \<and> subscript d (lit ''messages'') = Inr (JList ms)"
    by (simp add: doc_metadata_def example_chunk_def example_conversation_def
        example_metadata_def dict_eq_def)
  have n: "messages ?c0 = []" "chunks_loaded ?c0 = 0" by (simp_all add: Conversation_def)
  have k: "doc_messages ?d1 = [example_message1]"
    by (simp add: doc_messages_def example_chunk_def)
  from load_all_concatenates [of ?c0 "[?d1, ?d2]" ?c2 ?d2 "[example_message2]"] a b
  have 1: "messages ?c2 = [example_message1, example_message2]" "chunks_loaded ?c2 = 2"
    "doc_messages ?d2 = [example_message2]"
    by (simp_all add: n k)
  from load_all_concatenates [of ?c1 "[?d2]" ?c2 ?d2 "[example_message2]"] m e
  have 2: "\<exists>c'. load_all ?c1 [?d2] = Inr c'" by blast
  show ?thesis using a 1 m 2 by blast
qed

text \<open>
  Claim C3.  For a conversation that has absorbed a chunk and a document with the three
  metadata fields: when the metadata differ the merge raises \<open>AssertionError\<close>; when they
  are equal and the document has a list of messages the merge succeeds and leaves the
  metadata (and the participants) as they were.  For metadata that are strings, equal means
  the same three strings.
\<close>

theorem loadMessages_checks_metadata:
  assumes "loadMessages c0 doc0 = Inr c" and "doc_metadata doc = Inr md"
  shows "(\<not> dict_eq (metadata c) md \<longrightarrow> loadMessages c doc = Inl AssertionError)
       \<and> (dict_eq (metadata c) md \<and> subscript doc (lit ''messages'') = Inr (JList ms) \<longrightarrow>
            (\<exists>c'. loadMessages c doc = Inr c' \<and> metadata c' = metadata c
                  \<and> participants c' = participants c))
       \<and> (dict_eq [(lit ''title'', JStr a), (lit ''thread_type'', JStr b), (lit ''thread_path'', JStr p)]
                   [(lit ''title'', JStr a'), (lit ''thread_type'', JStr b'), (lit ''thread_path'', JStr p')]
            \<longleftrightarrow> a = a' \<and> b = b' \<and> p = p')"
proof -
  have m: "metadata c \<noteq> []" using loadMessages_result(3) [OF assms(1)] .
  show ?thesis
    using loadMessages_other_metadata [OF m assms(2)]
      loadMessages_same_metadata [OF m assms(2), of ms] dict_eq_strings [of a b p a' b' p']
    by simp
qed

theorem loadMessages_checks_metadata_witness:
  "loadMessages (Conversation (lit ''messages/trip'')) (example_chunk (lit ''Trip'') [example_message1])
     = Inr (example_conversation [example_message1] 1)
   \<and> doc_metadata (example_chunk (lit ''Trap'') [example_message2])
       = Inr [(lit ''title'', JStr (lit ''Trap'')), (lit ''thread_type'', JStr (lit ''RegularGroup'')),
              (lit ''thread_path'', JStr (lit ''inbox/trip''))]
   \<and> loadMessages (example_conversation [example_message1] 1)
        (example_chunk (lit ''Trap'') [example_message2]) = Inl AssertionError
   \<and> doc_metadata (example_chunk (lit ''Trip'') [example_message2]) = Inr example_metadata
   \<and> (\<exists>c'. loadMessages (example_conversation [example_message1] 1)
              (example_chunk (lit ''Trip'') [example_message2]) = Inr c'
            \<and> metadata c' = example_metadata
            \<and> participants c' = [(JStr (lit ''Alice''), None), (JStr (lit ''Bob''), None)])"
proof -
  let ?c0 = "Conversation (lit ''messages/trip'')"
  let ?d1 = "example_chunk (lit ''Trip'') [example_message1]"
  let ?d2 = "example_chunk (lit ''Trip'') [example_message2]"
  let ?d3 = "example_chunk (lit ''Trap'') [example_message2]"
  let ?c1 = "example_conversation [example_message1] 1"
  let ?md3 = "[(lit ''title'', JStr (lit ''Trap'')), (lit ''thread_type'', JStr (lit ''RegularGroup'')),
              (lit ''thread_path'', JStr (lit ''inbox/trip''))]"
  have md3: "doc_metadata ?d3 = Inr ?md3" by (simp add: doc_metadata_def example_chunk_def)
  have md2: "doc_metadata ?d2 = Inr example_metadata"
    by (simp add: doc_metadata_def example_chunk_def example_metadata_def)
  have ne: "\<not> dict_eq (metadata ?c1) ?md3"
    by (simp add: dict_eq_def example_conversation_def example_metadata_def)
  have eq: "dict_eq (metadata ?c1) example_metadata"
    by (simp add: dict_eq_def example_conversation_def example_metadata_def)
  have ms: "subscript ?d2 (lit ''messages'') = Inr (JList [example_message2])"
    by (simp add: example_chunk_def)
  have f: "metadata ?c1 = example_metadata"
    "participants ?c1 = [(JStr (lit ''Alice''), None), (JStr (lit ''Bob''), None)]"
    by (simp_all add: example_conversation_def)
  from loadMessages_checks_metadata [OF example_first md3] ne
  have 1: "loadMessages ?c1 ?d3 = Inl AssertionError" by blast
  from loadMessages_checks_metadata [OF example_first md2, of "[example_message2]"] eq ms
  have 2: "\<exists>c'. loadMessages ?c1 ?d2 = Inr c' \<and> metadata c' = metadata ?c1
                  \<and> participants c' = participants ?c1" by blast
  show ?thesis using example_first md3 1 md2 2 unfolding f by blast
qed

section \<open>Properties of the writer\<close>

subsection \<open>Rules for triples\<close>

lemma tripleI:
  assumes "\<And>s e s'. P s \<Longrightarrow> m s = (Inl e, s') \<Longrightarrow> E s'"
    and "\<And>s a s'. P s \<Longrightarrow> m s = (Inr a, s') \<Longrightarrow> Q a s'"
  shows "triple P m Q E"
  unfolding triple_def using assms by (auto split: prod.splits sum.splits)

lemma tripleD_ok: "triple P m Q E \<Longrightarrow> P s \<Longrightarrow> m s = (Inr a, s') \<Longrightarrow> Q a s'"
  unfolding triple_def by fastforce

lemma tripleD_err: "triple P m Q E \<Longrightarrow> P s \<Longrightarrow> m s = (Inl e, s') \<Longrightarrow> E s'"
  unfolding triple_def by fastforce

lemma triple_weaken:
  assumes "triple P' m Q' E'"
    and "\<And>s. P s \<Longrightarrow> P' s" and "\<And>a s. Q' a s \<Longrightarrow> Q a s" and "\<And>s. E' s \<Longrightarrow> E s"
  shows "triple P m Q E"
  using assms unfolding triple_def by (fastforce split: prod.splits sum.splits)

lemma triple_pre:
  assumes "triple P' m Q E" and "\<And>s. P s \<Longrightarrow> P' s"
  shows "triple P m Q E"
  using assms unfolding triple_def by (fastforce split: prod.splits sum.splits)

lemma triple_ret: "triple (Q a) (ret a) Q E"
  by (simp add: triple_def ret_def)

lemma triple_lift:
  assumes "\<And>a s. r = Inr a \<Longrightarrow> P s \<Longrightarrow> Q a s" and "\<And>s. P s \<Longrightarrow> E s"
  shows "triple P (lift r) Q E"
  using assms by (cases r) (auto simp: triple_def lift_def)

lemma triple_bnd:
  assumes "triple P m R E" and "\<And>a. triple (R a) (f a) Q E"
  shows "triple P (bnd m f) Q E"
proof (rule tripleI)
  fix s e s' assume P: "P s" and r: "bnd m f s = (Inl e, s')"
  show "E s'"
  proof (cases "m s")
    case (Pair x s1)
    show ?thesis
    proof (cases x)
      case (Inl e1)
      then show ?thesis using Pair r tripleD_err [OF assms(1) P] by (simp add: bnd_def)
    next
      case (Inr a)
      then have "R a s1" using Pair tripleD_ok [OF assms(1) P] by simp
      moreover have "f a s1 = (Inl e, s')" using Pair Inr r by (simp add: bnd_def)
      ultimately show ?thesis using tripleD_err [OF assms(2)] by blast
    qed
  qed
next
  fix s b s' assume P: "P s" and r: "bnd m f s = (Inr b, s')"
  show "Q b s'"
  proof (cases "m s")
    case (Pair x s1)
    show ?thesis
    proof (cases x)
      case (Inl e1)
      then show ?thesis using Pair r by (simp add: bnd_def)
    next
      case (Inr a)
      then have "R a s1" using Pair tripleD_ok [OF assms(1) P] by simp
      moreover have "f a s1 = (Inr b, s')" using Pair Inr r by (simp add: bnd_def)
      ultimately show ?thesis using tripleD_ok [OF assms(2)] by blast
    qed
  qed
qed

lemma triple_discard:
  assumes "triple P m (\<lambda>_. Q ()) E"
  shows "triple P (discard m) Q E"
  unfolding discard_def by (rule triple_bnd [OF assms]) (rule triple_ret)

lemma triple_for_each:
  assumes "\<And>x. x \<in> set xs \<Longrightarrow> triple I (body x) (\<lambda>_. I) E"
  shows "triple I (for_each xs body) (\<lambda>_. I) E"
  using assms
proof (induction xs)
  case Nil
  show ?case using triple_ret [of "\<lambda>_. I" "()" E] by simp
next
  case (Cons x xs)
  have "triple I (bnd (body x) (\<lambda>_. for_each xs body)) (\<lambda>_. I) E"
    by (rule triple_bnd [where R = "\<lambda>_. I"]) (simp_all add: Cons)
  then show ?case by simp
qed

lemma triple_if:
  assumes "b \<Longrightarrow> triple P m Q E" and "\<not> b \<Longrightarrow> triple P n Q E"
  shows "triple P (if b then m else n) Q E"
  using assms by simp

lemma triple_read:
  assumes "\<And>v. triple (\<lambda>s. P s \<and> h s = v) (g v) Q E"
  shows "triple P (\<lambda>s. g (h s) s) Q E"
proof (rule tripleI)
  fix s e s' assume "P s" "g (h s) s = (Inl e, s')"
  then show "E s'" using tripleD_err [OF assms [of "h s"], of s e s'] by simp
next
  fix s a s' assume "P s" "g (h s) s = (Inr a, s')"
  then show "Q a s'" using tripleD_ok [OF assms [of "h s"], of s a s'] by simp
qed

lemma triple_on_db:
  assumes "\<And>c. triple (\<lambda>tb. P (c, tb)) m (\<lambda>a tb. Q a (c, tb)) (\<lambda>tb. E (c, tb))"
  shows "triple P (on_db m) Q E"
proof (rule tripleI)
  fix s e s' assume P: "P s" and r: "on_db m s = (Inl e, s')"
  obtain c tb where s: "s = (c, tb)" by (cases s)
  obtain x tb' where m: "m tb = (x, tb')" by (cases "m tb")
  from r have "x = Inl e" "s' = (c, tb')" by (simp_all add: on_db_def s m)
  then show "E s'" using tripleD_err [OF assms [of c], of tb e tb'] P s m by simp
next
  fix s a s' assume P: "P s" and r: "on_db m s = (Inr a, s')"
  obtain c tb where s: "s = (c, tb)" by (cases s)
  obtain x tb' where m: "m tb = (x, tb')" by (cases "m tb")
  from r have "x = Inr a" "s' = (c, tb')" by (simp_all add: on_db_def s m)
  then show "Q a s'" using tripleD_ok [OF assms [of c], of tb a tb'] P s m by simp
qed

lemma triple_conj:
  assumes "triple P m Q E" and "triple P' m Q' E'"
  shows "triple (\<lambda>s. P s \<and> P' s) m (\<lambda>a s. Q a s \<and> Q' a s) (\<lambda>s. E s \<and> E' s)"
  using assms unfolding triple_def by (fastforce split: prod.splits sum.splits)

subsection \<open>Inserting a row\<close>

lemma bind_param_sql_of: "bind_param v = Inr x \<Longrightarrow> x = sql_of v"
  by (cases v) (auto split: if_splits sum.splits)

lemma bind_params_sql_of: "map_result bind_param vs = Inr xs \<Longrightarrow> xs = map sql_of vs"
  by (induction vs arbitrary: xs) (auto split: sum.splits dest: bind_param_sql_of)

lemma execute_insert_err: "execute_insert sch t ps tb = (Inl e, tb') \<Longrightarrow> tb' = tb"
  by (auto simp: execute_insert_def split: sum.splits if_splits)

lemma execute_insert_ok:
  assumes "execute_insert sch t ps tb = (Inr rid, tb')"
  shows "rid = next_rowid (tb t)" and "tb' = tb(t := tb t @ [(rid, map sql_of ps)])"
    and "map_result bind_param ps = Inr (map sql_of ps)"
    and "sch t (map sql_of ps) (tb t)"
  using assms
  by (auto simp: execute_insert_def split: sum.splits if_splits dest: bind_params_sql_of)

lemma fold_max_ge: "(a::int) \<le> fold max xs a"
  by (induction xs arbitrary: a) (auto intro: order_trans [OF max.cobounded2])

lemma fold_max_mem: "x \<in> set xs \<Longrightarrow> (x::int) \<le> fold max xs a"
proof (induction xs arbitrary: a)
  case Nil
  then show ?case by simp
next
  case (Cons y ys)
  show ?case
  proof (cases "x = y")
    case True
    have "x \<le> max y a" using True by simp
    also have "\<dots> \<le> fold max ys (max y a)" by (rule fold_max_ge)
    finally show ?thesis by simp
  next
    case False
    then show ?thesis using Cons by auto
  qed
qed

lemma next_rowid_above: "r \<in> set rows \<Longrightarrow> fst r < next_rowid rows"
proof (cases rows)
  case Nil
  assume "r \<in> set rows" then show ?thesis using Nil by simp
next
  case (Cons r0 rs)
  assume "r \<in> set rows"
  then have "r = r0 \<or> r \<in> set rs" using Cons by simp
  then have "fst r \<le> fold max (map fst rs) (fst r0)"
    using fold_max_ge [of "fst r0" "map fst rs"] fold_max_mem [of "fst r" "map fst rs" "fst r0"]
    by auto
  then show ?thesis using Cons by (simp add: next_rowid_def)
qed

lemma next_rowid_fresh: "next_rowid rows \<notin> fst ` set rows"
  using next_rowid_above by fastforce

lemma next_rowid_positive: "\<forall>r \<in> set rows. 0 \<le> fst r \<Longrightarrow> 0 < next_rowid rows"
proof (cases rows)
  case Nil
  then show ?thesis by (simp add: next_rowid_def)
next
  case (Cons r0 rs)
  assume "\<forall>r \<in> set rows. 0 \<le> fst r"
  then have "0 \<le> fst r0" using Cons by simp
  then show ?thesis using next_rowid_above [of r0 rows] Cons by simp
qed

subsection \<open>An invariant through the parts of saveMessage\<close>

lemma triple_lift_inv:
  assumes "\<And>s. P s \<Longrightarrow> E s" and "\<And>a s. P s \<Longrightarrow> r = Inr a \<Longrightarrow> Q a s"
  shows "triple P (lift r) Q E"
  by (rule triple_lift) (use assms in auto)

lemma triple_bnd_lift:
  assumes "\<And>s. P s \<Longrightarrow> E s" and "\<And>a. r = Inr a \<Longrightarrow> triple P (f a) Q E"
  shows "triple P (bnd (lift r) f) Q E"
proof (cases r)
  case (Inl e)
  then show ?thesis using assms(1) by (simp add: triple_def bnd_def lift_def)
next
  case (Inr a)
  then show ?thesis using assms(2) [OF Inr] by (simp add: triple_def bnd_def lift_def)
qed

lemma save_reactions_inv:
  assumes err: "\<And>s. I s \<Longrightarrow> E s"
    and gp: "\<And>n. triple I (getParticipantId sch n) (\<lambda>_. I) E"
    and sr: "\<And>uid sym. triple I (on_db (saveReaction sch mid uid sym)) (\<lambda>_. I) E"
  shows "triple I (save_reactions sch item mid) (\<lambda>_. I) E"
  unfolding save_reactions_def
proof (rule triple_bnd [where R = "\<lambda>_. I"])
  show "triple I (lift (py_in (lit ''reactions'') item)) (\<lambda>_. I) E"
    by (rule triple_lift_inv) (simp_all add: err)
next
  fix present
  show "triple I (if present then
         bnd (lift (case subscript item (lit ''reactions'') of
                      Inl e \<Rightarrow> Inl e | Inr v \<Rightarrow> py_iter v)) (\<lambda>reactions.
           for_each reactions (\<lambda>reaction.
             bnd (lift (subscript reaction (lit ''actor''))) (\<lambda>actor.
             bnd (getParticipantId sch actor) (\<lambda>user_id.
             bnd (lift (subscript reaction (lit ''reaction''))) (\<lambda>symbol.
             discard (on_db (saveReaction sch mid user_id symbol)))))))
       else ret ()) (\<lambda>_. I) E"
  proof (rule triple_if)
    show "triple I (ret ()) (\<lambda>_. I) E" using triple_ret [of "\<lambda>_. I" "()" E] by simp
  next
    show "triple I (bnd (lift (case subscript item (lit ''reactions'') of
                      Inl e \<Rightarrow> Inl e | Inr v \<Rightarrow> py_iter v)) (\<lambda>reactions.
           for_each reactions (\<lambda>reaction.
             bnd (lift (subscript reaction (lit ''actor''))) (\<lambda>actor.
             bnd (getParticipantId sch actor) (\<lambda>user_id.
             bnd (lift (subscript reaction (lit ''reaction''))) (\<lambda>symbol.
             discard (on_db (saveReaction sch mid user_id symbol)))))))) (\<lambda>_. I) E"
    proof (rule triple_bnd [where R = "\<lambda>_. I"])
      show "triple I (lift (case subscript item (lit ''reactions'') of
                      Inl e \<Rightarrow> Inl e | Inr v \<Rightarrow> py_iter v)) (\<lambda>_. I) E"
        by (rule triple_lift_inv) (simp_all add: err)
    next
      fix reactions
      show "triple I (for_each reactions (\<lambda>reaction.
             bnd (lift (subscript reaction (lit ''actor''))) (\<lambda>actor.
             bnd (getParticipantId sch actor) (\<lambda>user_id.
             bnd (lift (subscript reaction (lit ''reaction''))) (\<lambda>symbol.
             discard (on_db (saveReaction sch mid user_id symbol))))))) (\<lambda>_. I) E"
      proof (rule triple_for_each)
        fix reaction
        show "triple I (bnd (lift (subscript reaction (lit ''actor''))) (\<lambda>actor.
             bnd (getParticipantId sch actor) (\<lambda>user_id.
             bnd (lift (subscript reaction (lit ''reaction''))) (\<lambda>symbol.
             discard (on_db (saveReaction sch mid user_id symbol)))))) (\<lambda>_. I) E"
          by (intro triple_bnd [where R = "\<lambda>_. I"] triple_discard triple_lift_inv gp sr)
             (simp_all add: err)
      qed
    qed
  qed
qed

lemma save_attachements_inv:
  assumes err: "\<And>s. I s \<Longrightarrow> E s"
    and sa: "\<And>t data. t \<in> set attachements \<Longrightarrow>
               triple I (on_db (saveAttachement sch t mid data)) (\<lambda>_. I) E"
  shows "triple I (save_attachements sch item mid) (\<lambda>_. I) E"
  unfolding save_attachements_def
proof (rule triple_for_each)
  fix t assume t: "t \<in> set attachements"
  show "triple I (bnd (lift (py_in (table_name t) item)) (\<lambda>present.
         if present then
           bnd (lift (case subscript item (table_name t) of
                        Inl e \<Rightarrow> Inl e | Inr v \<Rightarrow> py_iter v)) (\<lambda>datas.
             for_each datas (\<lambda>data.
               discard (on_db (saveAttachement sch t mid data))))
         else ret ())) (\<lambda>_. I) E"
  proof (rule triple_bnd [where R = "\<lambda>_. I"])
    show "triple I (lift (py_in (table_name t) item)) (\<lambda>_. I) E"
      by (rule triple_lift_inv) (simp_all add: err)
  next
    fix present
    show "triple I (if present then
           bnd (lift (case subscript item (table_name t) of
                        Inl e \<Rightarrow> Inl e | Inr v \<Rightarrow> py_iter v)) (\<lambda>datas.
             for_each datas (\<lambda>data.
               discard (on_db (saveAttachement sch t mid data))))
         else ret ()) (\<lambda>_. I) E"
    proof (rule triple_if)
      show "triple I (ret ()) (\<lambda>_. I) E" using triple_ret [of "\<lambda>_. I" "()" E] by simp
    next
      show "triple I (bnd (lift (case subscript item (table_name t) of
                        Inl e \<Rightarrow> Inl e | Inr v \<Rightarrow> py_iter v)) (\<lambda>datas.
             for_each datas (\<lambda>data.
               discard (on_db (saveAttachement sch t mid data))))) (\<lambda>_. I) E"
        by (intro triple_bnd [where R = "\<lambda>_. I"] triple_for_each triple_discard triple_lift_inv
              sa [OF t]) (simp_all add: err)
    qed
  qed
qed

lemma save_share_sticker_inv:
  assumes err: "\<And>s. I s \<Longrightarrow> E s"
    and sh: "\<And>share. triple I (on_db (saveShare sch mid share)) (\<lambda>_. I) E"
    and st: "\<And>sticker. triple I (on_db (saveSticker sch mid sticker)) (\<lambda>_. I) E"
  shows "triple I (save_share_sticker sch item mid) (\<lambda>_. I) E"
  unfolding save_share_sticker_def
proof (rule triple_bnd [where R = "\<lambda>_. I"])
  show "triple I (lift (py_in (lit ''share'') item)) (\<lambda>_. I) E"
    by (rule triple_lift_inv) (simp_all add: err)
next
  fix has_share
  have r: "triple I (ret ()) (\<lambda>_. I) E" using triple_ret [of "\<lambda>_. I" "()" E] by simp
  show "triple I (bnd (if has_share then
            bnd (lift (subscript item (lit ''share''))) (\<lambda>share.
              discard (on_db (saveShare sch mid share)))
          else ret ()) (\<lambda>_.
     bnd (lift (py_in (lit ''sticker'') item)) (\<lambda>has_sticker.
       if has_sticker then
         bnd (lift (subscript item (lit ''sticker''))) (\<lambda>sticker.
           discard (on_db (saveSticker sch mid sticker)))
       else ret ()))) (\<lambda>_. I) E"
    by (intro triple_bnd [where R = "\<lambda>_. I"] triple_if triple_discard triple_lift_inv sh st r)
       (simp_all add: err)
qed

lemma saveMessage_parts:
  assumes err: "\<And>s. I s \<Longrightarrow> E s" and err0: "\<And>n sid s. I0 n sid s \<Longrightarrow> E s"
    and gp: "\<And>n. subscript item (lit ''sender_name'') = Inr n \<Longrightarrow>
               triple I (getParticipantId sch n) (I0 n) E"
    and ins: "\<And>content epoch ms n sid ty.
        get_or_none item (lit ''content'') = Inr content \<Longrightarrow>
        subscript item (lit ''timestamp_ms'') = Inr ms \<Longrightarrow> floordiv ms 1000 = Inr epoch \<Longrightarrow>
        subscript item (lit ''sender_name'') = Inr n \<Longrightarrow>
        subscript item (lit ''type'') = Inr ty \<Longrightarrow>
        triple (I0 n sid) (\<lambda>s. on_db (execute_insert sch Messages
                 [epoch, ty, py_int_or_none sid, JInt (conv_id (fst s)), content]) s) I1 E"
    and re: "\<And>mid. triple (I1 mid) (save_reactions sch item mid) (\<lambda>_. I2 mid) E"
    and at: "\<And>mid. triple (I2 mid) (save_attachements sch item mid) (\<lambda>_. I3 mid) E"
    and ss: "\<And>mid. triple (I3 mid) (save_share_sticker sch item mid) (\<lambda>_. I4 mid) E"
  shows "triple I (saveMessage sch item) I4 E"
  unfolding saveMessage_def
proof (rule triple_bnd_lift [OF err])
  fix content assume c: "get_or_none item (lit ''content'') = Inr content"
  show "triple I
     (bnd (lift (case subscript item (lit ''timestamp_ms'') of
                  Inl e \<Rightarrow> Inl e | Inr ms \<Rightarrow> floordiv ms 1000)) (\<lambda>epoch.
     bnd (lift (subscript item (lit ''sender_name''))) (\<lambda>sender_name.
     bnd (getParticipantId sch sender_name) (\<lambda>sender_id.
     bnd (lift (subscript item (lit ''type''))) (\<lambda>type.
     bnd (\<lambda>s. on_db (execute_insert sch Messages
                 [epoch, type, py_int_or_none sender_id, JInt (conv_id (fst s)), content]) s)
       (\<lambda>message_id.
     bnd (save_reactions sch item message_id) (\<lambda>_.
     bnd (save_attachements sch item message_id) (\<lambda>_.
     bnd (save_share_sticker sch item message_id) (\<lambda>_.
     ret message_id))))))))) I4 E"
  proof (rule triple_bnd_lift [OF err])
    fix epoch
    assume "(case subscript item (lit ''timestamp_ms'') of
                  Inl e \<Rightarrow> Inl e | Inr ms \<Rightarrow> floordiv ms 1000) = Inr epoch"
    then obtain ms where ms: "subscript item (lit ''timestamp_ms'') = Inr ms"
      "floordiv ms 1000 = Inr epoch"
      by (auto split: sum.splits)
    show "triple I
       (bnd (lift (subscript item (lit ''sender_name''))) (\<lambda>sender_name.
        bnd (getParticipantId sch sender_name) (\<lambda>sender_id.
        bnd (lift (subscript item (lit ''type''))) (\<lambda>type.
        bnd (\<lambda>s. on_db (execute_insert sch Messages
                 [epoch, type, py_int_or_none sender_id, JInt (conv_id (fst s)), content]) s)
          (\<lambda>message_id.
        bnd (save_reactions sch item message_id) (\<lambda>_.
        bnd (save_attachements sch item message_id) (\<lambda>_.
        bnd (save_share_sticker sch item message_id) (\<lambda>_.
        ret message_id)))))))) I4 E"
    proof (rule triple_bnd_lift [OF err])
      fix n assume n: "subscript item (lit ''sender_name'') = Inr n"
      show "triple I
              (bnd (getParticipantId sch n) (\<lambda>sender_id.
               bnd (lift (subscript item (lit ''type''))) (\<lambda>type.
               bnd (\<lambda>s. on_db (execute_insert sch Messages
                 [epoch, type, py_int_or_none sender_id, JInt (conv_id (fst s)), content]) s)
                 (\<lambda>message_id.
               bnd (save_reactions sch item message_id) (\<lambda>_.
               bnd (save_attachements sch item message_id) (\<lambda>_.
               bnd (save_share_sticker sch item message_id) (\<lambda>_.
               ret message_id))))))) I4 E"
      proof (rule triple_bnd [OF gp [OF n]])
        fix sid
        show "triple (I0 n sid)
                  (bnd (lift (subscript item (lit ''type''))) (\<lambda>type.
                   bnd (\<lambda>s. on_db (execute_insert sch Messages
                     [epoch, type, py_int_or_none sid, JInt (conv_id (fst s)), content]) s)
                     (\<lambda>message_id.
                   bnd (save_reactions sch item message_id) (\<lambda>_.
                   bnd (save_attachements sch item message_id) (\<lambda>_.
                   bnd (save_share_sticker sch item message_id) (\<lambda>_.
                   ret message_id)))))) I4 E"
        proof (rule triple_bnd_lift [OF err0])
          fix ty assume ty: "subscript item (lit ''type'') = Inr ty"
          show "triple (I0 n sid)
                   (bnd (\<lambda>s. on_db (execute_insert sch Messages
                     [epoch, ty, py_int_or_none sid, JInt (conv_id (fst s)), content]) s)
                     (\<lambda>message_id.
                   bnd (save_reactions sch item message_id) (\<lambda>_.
                   bnd (save_attachements sch item message_id) (\<lambda>_.
                   bnd (save_share_sticker sch item message_id) (\<lambda>_.
                   ret message_id))))) I4 E"
          proof (rule triple_bnd [OF ins [OF c ms n ty]])
            fix mid
            show "triple (I1 mid)
                        (bnd (save_reactions sch item mid) (\<lambda>_.
                         bnd (save_attachements sch item mid) (\<lambda>_.
                         bnd (save_share_sticker sch item mid) (\<lambda>_.
                         ret mid)))) I4 E"
              by (rule triple_bnd [OF re], rule triple_bnd [OF at], rule triple_bnd [OF ss])
                 (rule triple_ret)
          qed
        qed
      qed
    qed
  qed
qed


lemma saveMessage_inv:
  assumes err: "\<And>s. I s \<Longrightarrow> E s" and err': "\<And>mid s. I' mid s \<Longrightarrow> E s"
    and gp: "\<And>n. triple I (getParticipantId sch n) (\<lambda>_. I) E"
    and ins: "\<And>content epoch ms n sid ty.
        get_or_none item (lit ''content'') = Inr content \<Longrightarrow>
        subscript item (lit ''timestamp_ms'') = Inr ms \<Longrightarrow> floordiv ms 1000 = Inr epoch \<Longrightarrow>
        subscript item (lit ''sender_name'') = Inr n \<Longrightarrow>
        subscript item (lit ''type'') = Inr ty \<Longrightarrow>
        triple I (\<lambda>s. on_db (execute_insert sch Messages
                 [epoch, ty, py_int_or_none sid, JInt (conv_id (fst s)), content]) s) I' E"
    and gp': "\<And>mid n. triple (I' mid) (getParticipantId sch n) (\<lambda>_. I' mid) E"
    and sr: "\<And>mid uid sym. triple (I' mid) (on_db (saveReaction sch mid uid sym)) (\<lambda>_. I' mid) E"
    and sa: "\<And>mid t data. t \<in> set attachements \<Longrightarrow>
               triple (I' mid) (on_db (saveAttachement sch t mid data)) (\<lambda>_. I' mid) E"
    and sh: "\<And>mid share. triple (I' mid) (on_db (saveShare sch mid share)) (\<lambda>_. I' mid) E"
    and st: "\<And>mid sticker. triple (I' mid) (on_db (saveSticker sch mid sticker)) (\<lambda>_. I' mid) E"
  shows "triple I (saveMessage sch item) I' E"
proof (rule saveMessage_parts [where ?I0.0 = "\<lambda>_ _. I" and ?I1.0 = I' and ?I2.0 = I'
      and ?I3.0 = I'])
  fix mid
  show "triple (I' mid) (save_reactions sch item mid) (\<lambda>_. I' mid) E"
    by (rule save_reactions_inv [OF err' gp' sr])
  show "triple (I' mid) (save_attachements sch item mid) (\<lambda>_. I' mid) E"
    by (rule save_attachements_inv [OF err' sa])
  show "triple (I' mid) (save_share_sticker sch item mid) (\<lambda>_. I' mid) E"
    by (rule save_share_sticker_inv [OF err' sh st])
qed (use err gp ins in auto)

subsection \<open>What each method does to the state\<close>

lemma insert_triple:
  assumes "\<And>c tb. P (c, tb) \<Longrightarrow> E (c, tb)"
    and "\<And>c tb. P (c, tb) \<Longrightarrow> map_result bind_param ps = Inr (map sql_of ps) \<Longrightarrow>
           Q (next_rowid (tb t)) (c, tb(t := tb t @ [(next_rowid (tb t), map sql_of ps)]))"
  shows "triple P (on_db (execute_insert sch t ps)) Q E"
proof (rule triple_on_db, rule tripleI)
  fix c tb e tb' assume "P (c, tb)" "execute_insert sch t ps tb = (Inl e, tb')"
  then show "E (c, tb')" using assms(1) execute_insert_err by fastforce
next
  fix c tb rid tb' assume P: "P (c, tb)" and r: "execute_insert sch t ps tb = (Inr rid, tb')"
  show "Q rid (c, tb')"
    using assms(2) [OF P execute_insert_ok(3) [OF r]]
    by (simp add: execute_insert_ok(1) [OF r] execute_insert_ok(2) [OF r, unfolded execute_insert_ok(1) [OF r]])
qed

lemma insert_triple_read:
  assumes "\<And>c tb. P (c, tb) \<Longrightarrow> E (c, tb)"
    and "\<And>c tb. P (c, tb) \<Longrightarrow> map_result bind_param (ps (c, tb)) = Inr (map sql_of (ps (c, tb))) \<Longrightarrow>
           Q (next_rowid (tb t)) (c, tb(t := tb t @ [(next_rowid (tb t), map sql_of (ps (c, tb)))]))"
  shows "triple P (\<lambda>s. on_db (execute_insert sch t (ps s)) s) Q E"
proof (rule triple_read [where h = ps and g = "\<lambda>v. on_db (execute_insert sch t v)"])
  fix v
  show "triple (\<lambda>s. P s \<and> ps s = v) (on_db (execute_insert sch t v)) Q E"
    by (rule insert_triple) (use assms in auto)
qed

lemma saveParticipant_triple:
  assumes "\<And>c tb. P (c, tb) \<Longrightarrow> E (c, tb)"
    and "\<And>c tb. P (c, tb) \<Longrightarrow> bind_param n = Inr (sql_of n) \<Longrightarrow>
           Q (next_rowid (tb Participants))
             (c, tb(Participants := tb Participants @
                 [(next_rowid (tb Participants),
                   [SInt cid, sql_of n, SInt (if current then 1 else 0)])]))"
  shows "triple P (on_db (saveParticipant sch cid n current)) Q E"
  unfolding saveParticipant_def
  by (rule insert_triple) (use assms in \<open>auto split: sum.splits if_splits\<close>)

lemma getParticipantId_triple:
  assumes err: "\<And>s. P s \<Longrightarrow> E s"
    and old: "\<And>c tb pid. P (c, tb) \<Longrightarrow> hashable n \<Longrightarrow> map_of (participants c) n = Some pid \<Longrightarrow>
            Q pid (c, tb)"
    and new: "\<And>c tb. P (c, tb) \<Longrightarrow> hashable n \<Longrightarrow> map_of (participants c) n = None \<Longrightarrow>
            bind_param n = Inr (sql_of n) \<Longrightarrow>
            Q (Some (next_rowid (tb Participants)))
              (c\<lparr>participants :=
                   dict_set (participants c) n (Some (next_rowid (tb Participants)))\<rparr>,
               tb(Participants := tb Participants @
                 [(next_rowid (tb Participants), [SInt (conv_id c), sql_of n, SInt 0])]))"
  shows "triple P (getParticipantId sch n) Q E"
proof (rule tripleI)
  fix s e s' assume P: "P s" and r: "getParticipantId sch n s = (Inl e, s')"
  obtain c tb where s: "s = (c, tb)" by (cases s)
  have "s' = s"
    using r unfolding s getParticipantId_def saveParticipant_def
    by (auto split: if_splits option.splits prod.splits sum.splits dest: execute_insert_err)
  then show "E s'" using err P by simp
next
  fix s a s' assume P: "P s" and r: "getParticipantId sch n s = (Inr a, s')"
  obtain c tb where s: "s = (c, tb)" by (cases s)
  have h: "hashable n" using r unfolding s getParticipantId_def by (auto split: if_splits)
  show "Q a s'"
  proof (cases "map_of (participants c) n")
    case (Some pid)
    then have "a = pid" "s' = (c, tb)" using r h unfolding s getParticipantId_def by auto
    then show ?thesis using old [OF P [unfolded s] h Some] by simp
  next
    case None
    then obtain rid tb' where i: "execute_insert sch Participants [JInt (conv_id c), n, JInt 0] tb = (Inr rid, tb')"
      and a: "a = Some rid" and s': "s' = (c\<lparr>participants := dict_set (participants c) n (Some rid)\<rparr>, tb')"
      using r h unfolding s getParticipantId_def saveParticipant_def
      by (auto split: prod.splits sum.splits)
    note k = execute_insert_ok [OF i]
    have b: "bind_param n = Inr (sql_of n)" using k(3) by (auto split: sum.splits if_splits)
    show ?thesis using new [OF P [unfolded s] h None b] unfolding a s' k(2) k(1) by simp
  qed
qed

lemma saveReaction_triple:
  assumes "\<And>c tb. P (c, tb) \<Longrightarrow> E (c, tb)"
    and "\<And>c tb. P (c, tb) \<Longrightarrow>
           Q (next_rowid (tb Reactions))
             (c, tb(Reactions := tb Reactions @
                 [(next_rowid (tb Reactions),
                   [SInt mid, sql_of (py_int_or_none uid), sql_of symb])]))"
  shows "triple P (on_db (saveReaction sch mid uid symb)) Q E"
  unfolding saveReaction_def
  by (rule insert_triple) (use assms in auto)

lemma saveAttachement_triple:
  assumes "\<And>c tb. P (c, tb) \<Longrightarrow> E (c, tb)"
    and "\<And>c tb uri. P (c, tb) \<Longrightarrow> subscript data (lit ''uri'') = Inr (JStr uri) \<Longrightarrow>
           Q (next_rowid (tb t))
             (c, tb(t := tb t @
                 [(next_rowid (tb t), [SInt mid, SText (last (py_split (of_char CHR ''/'') uri))])]))"
  shows "triple P (on_db (saveAttachement sch t mid data)) Q E"
proof (cases "subscript data (lit ''uri'')")
  case (Inl e)
  then have "on_db (saveAttachement sch t mid data) = (\<lambda>s. (Inl e, s))"
    by (auto simp: saveAttachement_def on_db_def)
  then show ?thesis using assms(1) by (auto simp: triple_def)
next
  case (Inr v)
  show ?thesis
  proof (cases v)
    case (JStr uri)
    have ne: "py_split (of_char CHR ''/'') uri \<noteq> []"
      by (induction uri) (auto split: list.splits)
    have "saveAttachement sch t mid data
       = execute_insert sch t [JInt mid, JStr (last (py_split (of_char CHR ''/'') uri))]"
      using Inr JStr ne by (auto simp: saveAttachement_def py_last_def)
    then show ?thesis using assms(2) [OF _ Inr [unfolded JStr]] assms(1)
      by (simp only:) (rule insert_triple, auto)
  qed (use Inr assms(1) in \<open>auto simp: saveAttachement_def on_db_def triple_def\<close>)
qed

lemma saveShare_triple:
  assumes "\<And>c tb. P (c, tb) \<Longrightarrow> E (c, tb)"
    and "\<And>c tb link stext. P (c, tb) \<Longrightarrow> get_or_none share (lit ''link'') = Inr link \<Longrightarrow>
           get_or_none share (lit ''share_text'') = Inr stext \<Longrightarrow>
           Q (next_rowid (tb Shares))
             (c, tb(Shares := tb Shares @
                 [(next_rowid (tb Shares), [SInt mid, sql_of link, sql_of stext])]))"
  shows "triple P (on_db (saveShare sch mid share)) Q E"
proof (cases "get_or_none share (lit ''link'')")
  case (Inl e)
  then have "on_db (saveShare sch mid share) = (\<lambda>s. (Inl e, s))"
    by (auto simp: saveShare_def on_db_def)
  then show ?thesis using assms(1) by (auto simp: triple_def)
next
  case l: (Inr link)
  show ?thesis
  proof (cases "get_or_none share (lit ''share_text'')")
    case (Inl e)
    then have "on_db (saveShare sch mid share) = (\<lambda>s. (Inl e, s))"
      using l by (auto simp: saveShare_def on_db_def)
    then show ?thesis using assms(1) by (auto simp: triple_def)
  next
    case (Inr stext)
    have "saveShare sch mid share = execute_insert sch Shares [JInt mid, link, stext]"
      using l Inr by (auto simp: saveShare_def)
    then show ?thesis using assms(2) [OF _ l Inr] assms(1)
      by (simp only:) (rule insert_triple, auto)
  qed
qed

lemma saveSticker_triple:
  assumes "\<And>c tb. P (c, tb) \<Longrightarrow> E (c, tb)"
    and "\<And>c tb path. P (c, tb) \<Longrightarrow> subscript sticker (lit ''uri'') = Inr path \<Longrightarrow>
           Q (next_rowid (tb Stickers))
             (c, tb(Stickers := tb Stickers @
                 [(next_rowid (tb Stickers), [SInt mid, sql_of path])]))"
  shows "triple P (on_db (saveSticker sch mid sticker)) Q E"
proof (cases "subscript sticker (lit ''uri'')")
  case (Inl e)
  then have "on_db (saveSticker sch mid sticker) = (\<lambda>s. (Inl e, s))"
    by (auto simp: saveSticker_def on_db_def)
  then show ?thesis using assms(1) by (auto simp: triple_def)
next
  case (Inr path)
  have "saveSticker sch mid sticker = execute_insert sch Stickers [JInt mid, path]"
    using Inr by (auto simp: saveSticker_def)
  then show ?thesis using assms(2) [OF _ Inr] assms(1)
    by (simp only:) (rule insert_triple, auto)
qed

lemma attachements_not_Messages: "t \<in> set attachements \<Longrightarrow> t \<noteq> Messages"
  by (auto simp: attachements_def)








lemma utf8_encode_ascii: "list_all (\<lambda>c. c < 128) s \<Longrightarrow> utf8_encode s = Inr s"
  by (induction s) (simp_all add: utf8_encode_cp_def)

lemma bind_param_ascii: "list_all (\<lambda>c. c < 128) s \<Longrightarrow> bind_param (JStr s) = Inr (SText s)"
  by (simp add: utf8_encode_ascii)

lemma of_char_less_128: "(of_char ch :: nat) < 128 \<longleftrightarrow> \<not> digit7 ch"
  by (cases ch) simp

lemma ascii_lit: "list_all (\<lambda>c. c < 128) (lit s) \<longleftrightarrow> list_all (\<lambda>ch. \<not> digit7 ch) s"
  by (induction s) (simp_all add: lit_simps of_char_less_128)

lemma utf8_encode_lit [simp]:
  "list_all (\<lambda>ch. \<not> digit7 ch) s \<Longrightarrow> utf8_encode (lit s) = Inr (lit s)"
  using utf8_encode_ascii [of "lit s"] by (simp add: ascii_lit)

lemmas run_simps =
  saveMessage_def save_reactions_def save_attachements_def save_share_sticker_def
  bnd_def lift_def ret_def discard_def on_db_def getParticipantId_def saveParticipant_def
  saveReaction_def saveAttachement_def saveSticker_def saveShare_def execute_insert_def
  get_or_none_def next_rowid_def attachements_def py_last_def

subsection \<open>The last segment of a URI\<close>

lemma py_split_nonempty: "py_split sep s \<noteq> []"
  by (induction s) (auto split: list.splits)

lemma py_split_no_sep: "sep \<notin> set s \<Longrightarrow> py_split sep s = [s]"
  by (induction s) auto

lemma py_split_two: "sep \<in> set s \<Longrightarrow> 2 \<le> length (py_split sep s)"
proof (induction s)
  case Nil
  then show ?case by simp
next
  case (Cons c cs)
  show ?case
  proof (cases "c = sep")
    case True
    have "1 \<le> length (py_split sep cs)"
      using py_split_nonempty [of sep cs] by (cases "py_split sep cs") auto
    then show ?thesis using True by simp
  next
    case False
    then have "sep \<in> set cs" using Cons.prems by simp
    then have "2 \<le> length (py_split sep cs)" by (rule Cons.IH)
    then show ?thesis using False by (auto split: list.splits)
  qed
qed

lemma last_py_split_no_sep: "sep \<notin> set (last (py_split sep s))"
proof (induction s)
  case Nil
  then show ?case by simp
next
  case (Cons c cs)
  show ?case
  proof (cases "c = sep")
    case True
    then show ?thesis using Cons py_split_nonempty [of sep cs] by simp
  next
    case False
    obtain x xs where x: "py_split sep cs = x # xs"
      using py_split_nonempty [of sep cs] by (cases "py_split sep cs") auto
    show ?thesis
    proof (cases "xs = []")
      case True
      then show ?thesis using Cons False x by simp
    next
      case F: False
      then show ?thesis using Cons False x by simp
    qed
  qed
qed

lemma last_py_split_suffix:
  "sep \<in> set s \<Longrightarrow> \<exists>pre. s = pre @ [sep] @ last (py_split sep s)"
proof (induction s)
  case Nil
  then show ?case by simp
next
  case (Cons c cs)
  show ?case
  proof (cases "c = sep")
    case True
    have l: "last (py_split sep (c # cs)) = last (py_split sep cs)"
      using True py_split_nonempty [of sep cs] by simp
    show ?thesis
    proof (cases "sep \<in> set cs")
      case True
      then obtain pre where "cs = pre @ [sep] @ last (py_split sep cs)" using Cons.IH by blast
      then have "c # cs = (c # pre) @ [sep] @ last (py_split sep (c # cs))" using l by simp
      then show ?thesis by blast
    next
      case False
      then have "last (py_split sep cs) = cs" by (simp add: py_split_no_sep)
      then have "c # cs = [] @ [sep] @ last (py_split sep (c # cs))" using l True by simp
      then show ?thesis by blast
    qed
  next
    case False
    then have m: "sep \<in> set cs" using Cons.prems by simp
    then obtain pre where p: "cs = pre @ [sep] @ last (py_split sep cs)" using Cons.IH by blast
    obtain x xs where x: "py_split sep cs = x # xs"
      using py_split_nonempty [of sep cs] by (cases "py_split sep cs") auto
    have "xs \<noteq> []" using py_split_two [OF m] x by auto
    then have "last (py_split sep (c # cs)) = last (py_split sep cs)"
      using False x by simp
    then have "c # cs = (c # pre) @ [sep] @ last (py_split sep (c # cs))" using p by simp
    then show ?thesis by blast
  qed
qed

lemma filename_of_segment:
  "slash \<notin> set (filename_of u)
   \<and> (slash \<in> set u \<longrightarrow> (\<exists>pre. u = pre @ [slash] @ filename_of u))
   \<and> (slash \<notin> set u \<longrightarrow> filename_of u = u)"
  unfolding filename_of_def
  using last_py_split_no_sep [of slash u] last_py_split_suffix [of slash u]
    py_split_no_sep [of slash u] by auto

subsection \<open>The rows of the attachments of a message\<close>

lemma attachement_loop:
  "triple (\<lambda>s. snd s t = R)
     (for_each datas (\<lambda>data. discard (on_db (saveAttachement sch t mid data))))
     (\<lambda>_ s. \<exists>ids. length ids = length datas \<and>
        snd s t = R @ zip ids (map (\<lambda>data. [SInt mid, SText (filename_of (uri_of data))]) datas))
     (\<lambda>s. True)"
proof (induction datas arbitrary: R)
  case Nil
  show ?case by (simp add: triple_def ret_def)
next
  case (Cons data datas)
  let ?row = "\<lambda>data. [SInt mid, SText (filename_of (uri_of data))]"
  let ?R1 = "\<lambda>s. \<exists>rid. snd s t = R @ [(rid, ?row data)]"
  have step: "triple (\<lambda>s. snd s t = R) (discard (on_db (saveAttachement sch t mid data)))
                (\<lambda>_. ?R1) (\<lambda>s. True)"
    by (rule triple_discard, rule saveAttachement_triple)
       (auto simp: filename_of_def uri_of_def slash_def)
  have rest: "triple ?R1
     (for_each datas (\<lambda>data. discard (on_db (saveAttachement sch t mid data))))
     (\<lambda>_ s. \<exists>ids. length ids = length (data # datas) \<and>
        snd s t = R @ zip ids (map ?row (data # datas)))
     (\<lambda>s. True)"
  proof (rule tripleI)
    fix s a s'
    assume "?R1 s"
      and r: "for_each datas (\<lambda>data. discard (on_db (saveAttachement sch t mid data))) s = (Inr a, s')"
    then obtain rid where rid: "snd s t = R @ [(rid, ?row data)]" by blast
    from tripleD_ok [OF Cons.IH [of "R @ [(rid, ?row data)]"] rid r]
    obtain ids where ids: "length ids = length datas"
      "snd s' t = (R @ [(rid, ?row data)]) @ zip ids (map ?row datas)" by blast
    then have "length (rid # ids) = length (data # datas)
         \<and> snd s' t = R @ zip (rid # ids) (map ?row (data # datas))" by simp
    then show "\<exists>ids. length ids = length (data # datas) \<and>
        snd s' t = R @ zip ids (map ?row (data # datas))" by blast
  qed simp
  show ?case by (simp only: for_each.simps) (rule triple_bnd [OF step rest])
qed

lemma for_each_one:
  assumes "distinct ts" and "t \<in> set ts"
    and hit: "triple P (body t) (\<lambda>_. Q) E"
    and missP: "\<And>x. x \<in> set ts \<Longrightarrow> x \<noteq> t \<Longrightarrow> triple P (body x) (\<lambda>_. P) E"
    and missQ: "\<And>x. x \<in> set ts \<Longrightarrow> x \<noteq> t \<Longrightarrow> triple Q (body x) (\<lambda>_. Q) E"
  shows "triple P (for_each ts body) (\<lambda>_. Q) E"
  using assms(1,2) missP missQ
proof (induction ts)
  case Nil
  then show ?case by simp
next
  case (Cons x xs)
  show ?case
  proof (cases "x = t")
    case True
    have "t \<notin> set xs" using Cons.prems(1) True by simp
    then have "triple Q (for_each xs body) (\<lambda>_. Q) E"
      using Cons.prems(4) by (intro triple_for_each) auto
    then show ?thesis using True hit by (simp only: for_each.simps) (rule triple_bnd)
  next
    case False
    then have "triple P (for_each xs body) (\<lambda>_. Q) E"
      using Cons by auto
    moreover have "triple P (body x) (\<lambda>_. P) E" using Cons.prems(3) False by simp
    ultimately show ?thesis by (simp only: for_each.simps) (rule triple_bnd)
  qed
qed

lemma attachement_body_frame:
  assumes "x \<noteq> t"
  shows "triple (\<lambda>s. V (snd s t))
     (bnd (lift (py_in (table_name x) item)) (\<lambda>present.
         if present then
           bnd (lift (case subscript item (table_name x) of
                        Inl e \<Rightarrow> Inl e | Inr v \<Rightarrow> py_iter v)) (\<lambda>datas.
             for_each datas (\<lambda>data.
               discard (on_db (saveAttachement sch x mid data))))
         else ret ()))
     (\<lambda>_ s. V (snd s t)) (\<lambda>s. True)"
proof -
  have r: "triple (\<lambda>s. V (snd s t)) (ret ()) (\<lambda>_ s. V (snd s t)) (\<lambda>s. True)"
    by (simp add: triple_def ret_def)
  have a: "\<And>data. triple (\<lambda>s. V (snd s t)) (on_db (saveAttachement sch x mid data))
              (\<lambda>_ s. V (snd s t)) (\<lambda>s. True)"
    by (rule saveAttachement_triple) (use assms in auto)
  show ?thesis
    by (intro triple_bnd_lift triple_if triple_for_each triple_discard a r) simp_all
qed

lemma save_attachements_rows:
  assumes t: "t \<in> set attachements"
  shows "triple (\<lambda>s. snd s t = R) (save_attachements sch item mid)
     (\<lambda>_ s. \<exists>ids. length ids = length (attached item t) \<and>
        snd s t = R @ zip ids (map (\<lambda>data. [SInt mid, SText (filename_of (uri_of data))])
                                  (attached item t)))
     (\<lambda>s. True)"
  unfolding save_attachements_def
proof (rule for_each_one [OF _ t])
  show "distinct attachements" by (simp add: attachements_def)
next
  let ?Q = "\<lambda>s. \<exists>ids. length ids = length (attached item t) \<and>
        snd s t = R @ zip ids (map (\<lambda>data. [SInt mid, SText (filename_of (uri_of data))])
                                  (attached item t))"
  show "triple (\<lambda>s. snd s t = R)
     (bnd (lift (py_in (table_name t) item)) (\<lambda>present.
         if present then
           bnd (lift (case subscript item (table_name t) of
                        Inl e \<Rightarrow> Inl e | Inr v \<Rightarrow> py_iter v)) (\<lambda>datas.
             for_each datas (\<lambda>data.
               discard (on_db (saveAttachement sch t mid data))))
         else ret ())) (\<lambda>_. ?Q) (\<lambda>s. True)"
  proof (rule triple_bnd_lift)
    fix present assume p: "py_in (table_name t) item = Inr present"
    show "triple (\<lambda>s. snd s t = R)
       (if present then
           bnd (lift (case subscript item (table_name t) of
                        Inl e \<Rightarrow> Inl e | Inr v \<Rightarrow> py_iter v)) (\<lambda>datas.
             for_each datas (\<lambda>data.
               discard (on_db (saveAttachement sch t mid data))))
         else ret ()) (\<lambda>_. ?Q) (\<lambda>s. True)"
    proof (cases present)
      case False
      then have "attached item t = []" using p by (simp add: attached_def)
      then show ?thesis using False by (simp add: triple_def ret_def)
    next
      case True
      have "triple (\<lambda>s. snd s t = R)
         (bnd (lift (case subscript item (table_name t) of
                        Inl e \<Rightarrow> Inl e | Inr v \<Rightarrow> py_iter v)) (\<lambda>datas.
             for_each datas (\<lambda>data.
               discard (on_db (saveAttachement sch t mid data))))) (\<lambda>_. ?Q) (\<lambda>s. True)"
      proof (rule triple_bnd_lift)
        fix datas
        assume "(case subscript item (table_name t) of
                        Inl e \<Rightarrow> Inl e | Inr v \<Rightarrow> py_iter v) = Inr datas"
        then have "attached item t = datas"
          using p True by (auto simp: attached_def split: sum.splits)
        then show "triple (\<lambda>s. snd s t = R)
            (for_each datas (\<lambda>data. discard (on_db (saveAttachement sch t mid data))))
            (\<lambda>_. ?Q) (\<lambda>s. True)"
          using attachement_loop [of t R datas sch mid] by simp
      qed simp
      then show ?thesis using True by simp
    qed
  qed simp
next
  fix x assume "x \<in> set attachements" "x \<noteq> t"
  then show "triple (\<lambda>s. snd s t = R)
     (bnd (lift (py_in (table_name x) item)) (\<lambda>present.
         if present then
           bnd (lift (case subscript item (table_name x) of
                        Inl e \<Rightarrow> Inl e | Inr v \<Rightarrow> py_iter v)) (\<lambda>datas.
             for_each datas (\<lambda>data.
               discard (on_db (saveAttachement sch x mid data))))
         else ret ())) (\<lambda>_ s. snd s t = R) (\<lambda>s. True)"
    using attachement_body_frame [of x t "\<lambda>v. v = R"] by simp
next
  let ?Q = "\<lambda>v. \<exists>ids. length ids = length (attached item t) \<and>
        v = R @ zip ids (map (\<lambda>data. [SInt mid, SText (filename_of (uri_of data))])
                                  (attached item t))"
  fix x assume "x \<in> set attachements" "x \<noteq> t"
  then show "triple (\<lambda>s. ?Q (snd s t))
     (bnd (lift (py_in (table_name x) item)) (\<lambda>present.
         if present then
           bnd (lift (case subscript item (table_name x) of
                        Inl e \<Rightarrow> Inl e | Inr v \<Rightarrow> py_iter v)) (\<lambda>datas.
             for_each datas (\<lambda>data.
               discard (on_db (saveAttachement sch x mid data))))
         else ret ())) (\<lambda>_ s. ?Q (snd s t)) (\<lambda>s. True)"
    using attachement_body_frame [of x t ?Q] by simp
qed

lemma saveMessage_attachment_rows:
  assumes t: "t \<in> set attachements"
  shows "triple (\<lambda>s. snd s t = R) (saveMessage sch item)
     (\<lambda>mid s. \<exists>ids. length ids = length (attached item t) \<and>
        snd s t = R @ zip ids (map (\<lambda>data. [SInt mid, SText (filename_of (uri_of data))])
                                  (attached item t)))
     (\<lambda>s. True)"
proof -
  have ne: "t \<noteq> Participants" "t \<noteq> Messages" "t \<noteq> Reactions" "t \<noteq> Shares" "t \<noteq> Stickers"
    using t by (auto simp: attachements_def)
  let ?Q = "\<lambda>mid s. \<exists>ids. length ids = length (attached item t) \<and>
        snd s t = R @ zip ids (map (\<lambda>data. [SInt mid, SText (filename_of (uri_of data))])
                                  (attached item t))"
  show ?thesis
  proof (rule saveMessage_parts [where ?I0.0 = "\<lambda>_ _ s. snd s t = R"
        and ?I1.0 = "\<lambda>_ s. snd s t = R" and ?I2.0 = "\<lambda>_ s. snd s t = R" and ?I3.0 = ?Q])
    fix n
    show "triple (\<lambda>s. snd s t = R) (getParticipantId sch n) (\<lambda>_ s. snd s t = R) (\<lambda>s. True)"
      by (rule getParticipantId_triple) (use ne in auto)
  next
    fix content epoch sid ty
    show "triple (\<lambda>s. snd s t = R)
          (\<lambda>s. on_db (execute_insert sch Messages
                 [epoch, ty, py_int_or_none sid, JInt (conv_id (fst s)), content]) s)
          (\<lambda>_ s. snd s t = R) (\<lambda>s. True)"
      by (rule insert_triple_read) (use ne in auto)
  next
    fix mid
    show "triple (\<lambda>s. snd s t = R) (save_reactions sch item mid) (\<lambda>_ s. snd s t = R) (\<lambda>s. True)"
    proof (rule save_reactions_inv)
      fix n
      show "triple (\<lambda>s. snd s t = R) (getParticipantId sch n) (\<lambda>_ s. snd s t = R) (\<lambda>s. True)"
        by (rule getParticipantId_triple) (use ne in auto)
    next
      fix uid symb
      show "triple (\<lambda>s. snd s t = R) (on_db (saveReaction sch mid uid symb))
              (\<lambda>_ s. snd s t = R) (\<lambda>s. True)"
        by (rule saveReaction_triple) (use ne in auto)
    qed simp
  next
    fix mid
    show "triple (\<lambda>s. snd s t = R) (save_attachements sch item mid) (\<lambda>_. ?Q mid) (\<lambda>s. True)"
      by (rule save_attachements_rows [OF t])
  next
    fix mid
    show "triple (?Q mid) (save_share_sticker sch item mid) (\<lambda>_. ?Q mid) (\<lambda>s. True)"
    proof (rule save_share_sticker_inv)
      fix share
      show "triple (?Q mid) (on_db (saveShare sch mid share)) (\<lambda>_. ?Q mid) (\<lambda>s. True)"
        by (rule saveShare_triple) (use ne in auto)
    next
      fix sticker
      show "triple (?Q mid) (on_db (saveSticker sch mid sticker)) (\<lambda>_. ?Q mid) (\<lambda>s. True)"
        by (rule saveSticker_triple) (use ne in auto)
    qed simp
  qed simp_all
qed

text \<open>
  Claim C7, as amended.  A message that is saved adds to the table of each of the five kinds
  one row for each attachment of that kind, in order, with the message id and the file name
  of the attachment's URI.  The file name has no \<open>/\<close>; it is what follows the last \<open>/\<close>
  of a URI that has one, and the whole URI otherwise.
\<close>

theorem attachment_rows_last_segment:
  assumes "saveMessage sch item (c, tb) = (Inr mid, (c', tb'))" and "t \<in> set attachements"
  shows "(\<exists>ids. length ids = length (attached item t) \<and>
            tb' t = tb t @ zip ids (map (\<lambda>data. [SInt mid, SText (filename_of (uri_of data))])
                                      (attached item t)))
       \<and> slash \<notin> set (filename_of u)
       \<and> (slash \<in> set u \<longrightarrow> (\<exists>pre. u = pre @ [slash] @ filename_of u))
       \<and> (slash \<notin> set u \<longrightarrow> filename_of u = u)"
  using tripleD_ok [OF saveMessage_attachment_rows [OF assms(2), of "tb t" sch item],
      of "(c, tb)" mid "(c', tb')"] assms(1) filename_of_segment [of u]
  by simp

lemma example_photo_run:
  "saveMessage no_constraints example_photo_message (example_conversation [] 0, empty_tables)
     = (Inr 1, (example_conversation [] 0,
          empty_tables
            (Messages := [(1, [SInt 1500000120, SText (lit ''Generic''), SNull, SInt 0, SNull])],
             Photos := [(1, [SInt 1, SText (lit ''a.jpg'')]), (2, [SInt 1, SText (lit ''b.png'')])])))"
  by (simp add: run_simps example_photo_message_def example_conversation_def no_constraints_def
      empty_tables_def lit_simps utf8_encode_cp_def slash_def)


theorem attachment_rows_last_segment_witness:
  "saveMessage no_constraints example_photo_message (example_conversation [] 0, empty_tables)
     = (Inr 1, (example_conversation [] 0,
          empty_tables
            (Messages := [(1, [SInt 1500000120, SText (lit ''Generic''), SNull, SInt 0, SNull])],
             Photos := [(1, [SInt 1, SText (lit ''a.jpg'')]), (2, [SInt 1, SText (lit ''b.png'')])])))
   \<and> Photos \<in> set attachements
   \<and> (\<exists>ids. length ids = 2 \<and>
         [(1::int, [SInt 1, SText (lit ''a.jpg'')]), (2, [SInt 1, SText (lit ''b.png'')])]
           = zip ids [[SInt 1, SText (lit ''a.jpg'')], [SInt 1, SText (lit ''b.png'')]])
   \<and> slash \<in> set (lit ''messages/trip/photos/a.jpg'')
   \<and> (\<exists>pre. lit ''messages/trip/photos/a.jpg'' = pre @ [slash] @ lit ''a.jpg'')
   \<and> slash \<notin> set (lit ''b.png'')
   \<and> filename_of (lit ''b.png'') = lit ''b.png''"
proof -
  let ?tb = "empty_tables
            (Messages := [(1, [SInt 1500000120, SText (lit ''Generic''), SNull, SInt 0, SNull])],
             Photos := [(1, [SInt 1, SText (lit ''a.jpg'')]), (2, [SInt 1, SText (lit ''b.png'')])])"
  have m: "Photos \<in> set attachements" by (simp add: attachements_def)
  have a: "attached example_photo_message Photos
     = [JObj [(lit ''uri'', JStr (lit ''messages/trip/photos/a.jpg''))],
        JObj [(lit ''uri'', JStr (lit ''b.png''))]]"
    by (simp add: attached_def example_photo_message_def)
  have f: "filename_of (lit ''messages/trip/photos/a.jpg'') = lit ''a.jpg''"
    "filename_of (lit ''b.png'') = lit ''b.png''"
    by (simp_all add: filename_of_def slash_def lit_simps)
  have s: "slash \<in> set (lit ''messages/trip/photos/a.jpg'')" "slash \<notin> set (lit ''b.png'')"
    by (simp_all add: slash_def lit_simps)
  have e: "empty_tables Photos = []" "?tb Photos
     = [(1, [SInt 1, SText (lit ''a.jpg'')]), (2, [SInt 1, SText (lit ''b.png'')])]"
    by (simp_all add: empty_tables_def)
  from attachment_rows_last_segment [OF example_photo_run m, of "lit ''messages/trip/photos/a.jpg''"]
  obtain ids pre where "length ids = 2"
    "[(1::int, [SInt 1, SText (lit ''a.jpg'')]), (2, [SInt 1, SText (lit ''b.png'')])]
           = zip ids [[SInt 1, SText (lit ''a.jpg'')], [SInt 1, SText (lit ''b.png'')]]"
    "lit ''messages/trip/photos/a.jpg'' = pre @ [slash] @ lit ''a.jpg''"
    using s by (auto simp: a e f uri_of_def numeral_2_eq_2)
  then have 1: "\<exists>ids. length ids = 2 \<and>
         [(1::int, [SInt 1, SText (lit ''a.jpg'')]), (2, [SInt 1, SText (lit ''b.png'')])]
           = zip ids [[SInt 1, SText (lit ''a.jpg'')], [SInt 1, SText (lit ''b.png'')]]"
    and 2: "\<exists>pre. lit ''messages/trip/photos/a.jpg'' = pre @ [slash] @ lit ''a.jpg''"
    by blast+
  from attachment_rows_last_segment [OF example_photo_run m, of "lit ''b.png''"]
  have 3: "filename_of (lit ''b.png'') = lit ''b.png''" using s by simp
  show ?thesis using example_photo_run m 1 2 3 s by simp
qed

text \<open>
  Claim C7 as stated fails for a URI without \<open>/\<close>: the row stores the full URI.
\<close>

theorem attachment_full_uri_counterexample:
  "saveAttachement no_constraints Photos 1 (JObj [(lit ''uri'', JStr (lit ''b.png''))]) empty_tables
     = (Inr 1, empty_tables(Photos := [(1, [SInt 1, SText (lit ''b.png'')])]))"
  by (simp add: run_simps no_constraints_def empty_tables_def lit_simps utf8_encode_cp_def)







section \<open>Properties of the participant ids\<close>

subsection \<open>The participant map and the participants table\<close>

lemma dict_set_new: "k \<notin> set (map fst d) \<Longrightarrow> dict_set d k v = d @ [(k, v)]"
  by (induction d) auto

lemma map_of_dict_set: "map_of (dict_set d k v) = (map_of d)(k \<mapsto> v)"
  by (induction d) (auto simp: fun_eq_iff)

lemma dict_set_keys: "set (map fst (dict_set d k v)) = insert k (set (map fst d))"
  by (induction d) auto

lemma map_of_None_keys: "map_of d k = None \<longleftrightarrow> k \<notin> set (map fst d)"
  by (simp add: map_of_eq_None_iff)

lemma participant_row_fst:
  "list_all (\<lambda>e. \<exists>rid. snd e = Some rid \<and> Q rid) ps \<Longrightarrow> Some rid \<in> set (map snd ps) \<Longrightarrow>
     rid \<in> set (map fst (map (participant_row cid roster) ps))"
  by (induction ps) (auto simp: participant_row_def)

lemma linked_getParticipantId:
  "triple (linked cid roster base) (getParticipantId sch n) (\<lambda>_. linked cid roster base)
     (linked cid roster base)"
proof (rule getParticipantId_triple)
  fix c tb
  assume l: "linked cid roster base (c, tb)" and h: "hashable n"
    and none: "map_of (participants c) n = None"
  let ?ps = "participants c"
  let ?rid = "next_rowid (tb Participants)"
  have nk: "n \<notin> set (map fst ?ps)" using none by (simp add: map_of_None_keys)
  have ds: "dict_set ?ps n (Some ?rid) = ?ps @ [(n, Some ?rid)]" by (rule dict_set_new [OF nk])
  have tbp: "tb Participants = base @ map (participant_row cid roster) ?ps"
    using l by (simp add: linked_def)
  have fresh: "?rid \<notin> set (map fst (tb Participants))"
    using next_rowid_fresh [of "tb Participants"] by simp
  have f1: "?rid \<notin> set (map fst base)" using fresh tbp by simp
  have la: "list_all (\<lambda>e. hashable (fst e) \<and> (\<exists>rid. snd e = Some rid \<and> rid \<notin> set (map fst base))) ?ps"
    using l by (simp add: linked_def)
  then have la': "list_all (\<lambda>e. \<exists>rid. snd e = Some rid \<and> rid \<notin> set (map fst base)) ?ps"
    by (simp add: list_all_iff)
  have f2: "Some ?rid \<notin> set (map snd ?ps)"
  proof
    assume "Some ?rid \<in> set (map snd ?ps)"
    from participant_row_fst [OF la' this, of cid roster]
    show False using fresh tbp by simp
  qed
  have nr: "n \<notin> set roster" using l nk by (auto simp: linked_def)
  have row: "\<And>rid. participant_row cid roster (n, Some rid)
                    = (rid, [SInt (conv_id c), sql_of n, SInt 0])"
    using nr l by (simp add: participant_row_def linked_def)
  show "linked cid roster base
          (c\<lparr>participants := dict_set ?ps n (Some ?rid)\<rparr>,
           tb(Participants := tb Participants @ [(?rid, [SInt (conv_id c), sql_of n, SInt 0])]))"
    using l h nk f1 f2 la unfolding ds
    by (auto simp: linked_def tbp row)
qed auto

lemma linked_other_table:
  assumes "t \<noteq> Participants"
  shows "linked cid roster base (c, tb(t := v)) \<longleftrightarrow> linked cid roster base (c, tb)"
  using assms by (simp add: linked_def)

lemma attachements_not_Participants: "t \<in> set attachements \<Longrightarrow> t \<noteq> Participants"
  by (auto simp: attachements_def)

lemma linked_saveMessage:
  "triple (linked cid roster base) (saveMessage sch item) (\<lambda>_. linked cid roster base)
     (linked cid roster base)"
proof (rule saveMessage_inv)
  fix n
  show "triple (linked cid roster base) (getParticipantId sch n) (\<lambda>_. linked cid roster base)
     (linked cid roster base)"
    by (rule linked_getParticipantId)
  show "triple (linked cid roster base) (getParticipantId sch n) (\<lambda>_. linked cid roster base)
     (linked cid roster base)"
    by (rule linked_getParticipantId)
next
  fix content epoch sid ty
  show "triple (linked cid roster base)
          (\<lambda>s. on_db (execute_insert sch Messages
                 [epoch, ty, py_int_or_none sid, JInt (conv_id (fst s)), content]) s)
          (\<lambda>_. linked cid roster base) (linked cid roster base)"
    by (rule insert_triple_read) (simp_all add: linked_other_table)
next
  fix mid uid symb
  show "triple (linked cid roster base) (on_db (saveReaction sch mid uid symb))
          (\<lambda>_. linked cid roster base) (linked cid roster base)"
    by (rule saveReaction_triple) (simp_all add: linked_other_table)
next
  fix mid t data assume "t \<in> set attachements"
  then have "t \<noteq> Participants" by (rule attachements_not_Participants)
  then show "triple (linked cid roster base) (on_db (saveAttachement sch t mid data))
          (\<lambda>_. linked cid roster base) (linked cid roster base)"
    by (intro saveAttachement_triple) (simp_all add: linked_other_table)
next
  fix mid share
  show "triple (linked cid roster base) (on_db (saveShare sch mid share))
          (\<lambda>_. linked cid roster base) (linked cid roster base)"
    by (rule saveShare_triple) (simp_all add: linked_other_table)
next
  fix mid sticker
  show "triple (linked cid roster base) (on_db (saveSticker sch mid sticker))
          (\<lambda>_. linked cid roster base) (linked cid roster base)"
    by (rule saveSticker_triple) (simp_all add: linked_other_table)
qed simp_all

lemma save_messages_inv:
  assumes "\<And>item. triple I (saveMessage sch item) (\<lambda>_. I) E"
  shows "triple I (save_messages sch r msgs) (\<lambda>_. I) E"
proof (induction msgs arbitrary: r)
  case Nil
  show ?case using triple_ret [of "\<lambda>_. I" r E] by simp
next
  case (Cons m msgs)
  show ?case
  proof (cases "truthy r")
    case True
    have "triple I (bnd (saveMessage sch m) (\<lambda>mid. save_messages sch (RInt mid) msgs)) (\<lambda>_. I) E"
      by (rule triple_bnd [OF assms]) (rule Cons.IH)
    then show ?thesis using True by simp
  next
    case False
    then show ?thesis using Cons.IH [of r] by simp
  qed
qed

subsection \<open>The loop over the roster\<close>

lemma bind_param_hashable: "bind_param v = Inr x \<Longrightarrow> hashable v"
  by (cases v) auto

lemma dict_set_mid:
  "n \<notin> set (map fst A) \<Longrightarrow> dict_set (A @ (n, old) # B) n v = A @ (n, v) # B"
  by (induction A) auto

lemma set_participant_triple:
  assumes "\<And>c tb. P (c, tb) \<Longrightarrow>
     Q () (c\<lparr>participants := dict_set (participants c) n (Some rid)\<rparr>, tb)"
  shows "triple P (set_participant n rid) Q E"
  using assms by (auto simp: triple_def set_participant_def)

lemma roster_step:
  assumes d: "distinct (seen @ n # rest)" and r: "n \<in> set roster"
  shows "triple (roster_inv cid roster base seen (n # rest))
     (bnd (on_db (saveParticipant sch cid n True)) (set_participant n))
     (\<lambda>_. roster_inv cid roster base (seen @ [n]) rest) (\<lambda>s. True)"
proof (rule tripleI)
  fix s a s'
  assume inv: "roster_inv cid roster base seen (n # rest) s"
    and run: "bnd (on_db (saveParticipant sch cid n True)) (set_participant n) s = (Inr a, s')"
  obtain c tb where s: "s = (c, tb)" by (cases s)
  from inv obtain A B where ab: "participants c = A @ B" "map fst A = seen" "map fst B = n # rest"
    and cid: "conv_id c = cid"
    and la: "list_all (\<lambda>e. hashable (fst e) \<and> (\<exists>rid. snd e = Some rid \<and> rid \<notin> set (map fst base))) A"
    and ds: "distinct (map snd A)"
    and tbp: "tb Participants = base @ map (participant_row cid roster) A"
    unfolding roster_inv_def s by auto
  from ab(3) obtain old B' where B: "B = (n, old) # B'" "map fst B' = rest" by (cases B) auto
  have nA: "n \<notin> set (map fst A)" using d ab(2) by auto
  obtain x s1 where x: "on_db (saveParticipant sch cid n True) s = (x, s1)"
    by (cases "on_db (saveParticipant sch cid n True) s")
  then obtain rid where rid: "x = Inr rid" and sp: "set_participant n rid s1 = (Inr a, s')"
    using run by (cases x) (auto simp: bnd_def)
  obtain tb1 where i: "execute_insert sch Participants [JInt cid, n, JInt 1] tb = (Inr rid, tb1)"
    and s1: "s1 = (c, tb1)"
    using x rid unfolding s on_db_def saveParticipant_def by (auto split: prod.splits)
  note k = execute_insert_ok [OF i]
  have h: "hashable n" using k(3) by (auto split: sum.splits dest: bind_param_hashable)
  let ?ridv = "next_rowid (tb Participants)"
  have fresh: "?ridv \<notin> set (map fst (tb Participants))"
    using next_rowid_fresh [of "tb Participants"] by simp
  have f1: "?ridv \<notin> set (map fst base)" using fresh tbp by simp
  have la': "list_all (\<lambda>e. \<exists>rid. snd e = Some rid \<and> rid \<notin> set (map fst base)) A"
    using la by (simp add: list_all_iff)
  have f2: "Some ?ridv \<notin> set (map snd A)"
  proof
    assume "Some ?ridv \<in> set (map snd A)"
    from participant_row_fst [OF la' this, of cid roster]
    show False using fresh tbp by simp
  qed
  have s': "s' = (c\<lparr>participants := A @ (n, Some rid) # B'\<rparr>, tb1)"
    using sp dict_set_mid [OF nA, of old B' "Some rid"] unfolding s1 set_participant_def
    by (auto simp: ab(1) B(1))
  have row: "participant_row cid roster (n, Some rid) = (rid, [SInt cid, sql_of n, SInt 1])"
    using r by (simp add: participant_row_def)
  have "participants (fst s') = (A @ [(n, Some rid)]) @ B'" using s' by simp
  moreover have "map fst (A @ [(n, Some rid)]) = seen @ [n]" using ab(2) by simp
  moreover have "conv_id (fst s') = cid" using s' cid by simp
  moreover have "list_all (\<lambda>e. hashable (fst e) \<and> (\<exists>rid. snd e = Some rid \<and> rid \<notin> set (map fst base)))
                   (A @ [(n, Some rid)])"
    using la h f1 k(1) by simp
  moreover have "distinct (map snd (A @ [(n, Some rid)]))" using ds f2 k(1) by simp
  moreover have "snd s' Participants = base @ map (participant_row cid roster) (A @ [(n, Some rid)])"
    using s' k(2) tbp row by simp
  ultimately show "roster_inv cid roster base (seen @ [n]) rest s'"
    unfolding roster_inv_def using B(2) by blast
qed simp

lemma roster_loop:
  assumes "distinct (seen @ todo)" and "set todo \<subseteq> set roster"
  shows "triple (roster_inv cid roster base seen todo)
     (for_each todo (\<lambda>n. bnd (on_db (saveParticipant sch cid n True)) (set_participant n)))
     (\<lambda>_. roster_inv cid roster base (seen @ todo) []) (\<lambda>s. True)"
  using assms
proof (induction todo arbitrary: seen)
  case Nil
  show ?case by (simp add: triple_def ret_def)
next
  case (Cons n rest)
  have 1: "triple (roster_inv cid roster base seen (n # rest))
     (bnd (on_db (saveParticipant sch cid n True)) (set_participant n))
     (\<lambda>_. roster_inv cid roster base (seen @ [n]) rest) (\<lambda>s. True)"
    by (rule roster_step) (use Cons.prems in auto)
  have 2: "triple (roster_inv cid roster base (seen @ [n]) rest)
     (for_each rest (\<lambda>n. bnd (on_db (saveParticipant sch cid n True)) (set_participant n)))
     (\<lambda>_. roster_inv cid roster base ((seen @ [n]) @ rest) []) (\<lambda>s. True)"
    by (rule Cons.IH) (use Cons.prems in auto)
  show ?case using triple_bnd [OF 1 2] by simp
qed

lemma roster_inv_linked:
  assumes "roster_inv cid roster base roster [] s" and "distinct roster"
  shows "linked cid roster base s"
  using assms unfolding roster_inv_def linked_def by auto

lemma roster_frame:
  assumes "\<And>c tb ps v. F (c, tb) \<Longrightarrow> F (c\<lparr>participants := ps\<rparr>, tb(Participants := v))"
  shows "triple F (for_each todo (\<lambda>n. bnd (on_db (saveParticipant sch cid n True)) (set_participant n)))
           (\<lambda>_. F) F"
proof (rule triple_for_each)
  fix n
  have f: "\<And>c tb v. F (c, tb) \<Longrightarrow> F (c, tb(Participants := v))"
  proof -
    fix c tb v assume "F (c, tb)"
    from assms [OF this, of "participants c" v] show "F (c, tb(Participants := v))" by simp
  qed
  have g: "\<And>c tb ps. F (c, tb) \<Longrightarrow> F (c\<lparr>participants := ps\<rparr>, tb)"
  proof -
    fix c tb ps assume "F (c, tb)"
    from assms [OF this, of ps "tb Participants"] show "F (c\<lparr>participants := ps\<rparr>, tb)" by simp
  qed
  show "triple F (bnd (on_db (saveParticipant sch cid n True)) (set_participant n)) (\<lambda>_. F) F"
  proof (rule triple_bnd [where R = "\<lambda>_. F"])
    show "triple F (on_db (saveParticipant sch cid n True)) (\<lambda>_. F) F"
      by (rule saveParticipant_triple) (auto intro: f)
    show "\<And>rid. triple F (set_participant n rid) (\<lambda>_. F) F"
      by (rule set_participant_triple) (auto intro: g)
  qed
qed

subsection \<open>The stages of saveConversation\<close>

lemma bnd_ok:
  assumes "bnd m f s = (Inr a, s')"
  obtains b s1 where "m s = (Inr b, s1)" and "f b s1 = (Inr a, s')"
proof -
  obtain x s1 where x: "m s = (x, s1)" by (cases "m s")
  with assms obtain b where "x = Inr b" "f b s1 = (Inr a, s')"
    by (cases x) (auto simp: bnd_def)
  then show ?thesis using that x by blast
qed

lemma saveConversation_ok:
  assumes "saveConversation sch (c, tb) = (Inr r, (c', tb'))"
  obtains title thread_type thread_path rid tb1 c2 tb2 where
    "subscript (JObj (metadata c)) (lit ''title'') = Inr title"
    "subscript (JObj (metadata c)) (lit ''thread_type'') = Inr thread_type"
    "subscript (JObj (metadata c)) (lit ''thread_path'') = Inr thread_path"
    "execute_insert sch Conversations [JInt (conv_id c), title, thread_type, thread_path] tb
       = (Inr rid, tb1)"
    "for_each (map fst (participants c)) (\<lambda>participant.
        bnd (on_db (saveParticipant sch (conv_id c) participant True))
          (set_participant participant)) (c, tb1) = (Inr (), (c2, tb2))"
    "save_messages sch RCursor (messages c2) (c2, tb2) = (Inr r, (c', tb'))"
proof -
  from assms [unfolded saveConversation_def]
  obtain title s1 where 1: "lift (subscript (JObj (metadata c)) (lit ''title'')) (c, tb) = (Inr title, s1)"
    and r1: "bnd (\<lambda>s. lift (subscript (JObj (metadata (fst s))) (lit ''thread_type'')) s) (\<lambda>thread_type.
     bnd (\<lambda>s. lift (subscript (JObj (metadata (fst s))) (lit ''thread_path'')) s) (\<lambda>thread_path.
     bnd (\<lambda>s. on_db (execute_insert sch Conversations
                 [JInt (conv_id (fst s)), title, thread_type, thread_path]) s) (\<lambda>_.
     bnd (\<lambda>s. for_each (map fst (participants (fst s))) (\<lambda>participant.
                 bnd (on_db (saveParticipant sch (conv_id (fst s)) participant True))
                   (set_participant participant)) s) (\<lambda>_.
     (\<lambda>s. save_messages sch RCursor (messages (fst s)) s))))) s1 = (Inr r, (c', tb'))"
    by (rule bnd_ok) auto
  have s1: "s1 = (c, tb)" and t: "subscript (JObj (metadata c)) (lit ''title'') = Inr title"
    using 1 by (auto simp: lift_def)
  from r1 [unfolded s1]
  obtain thread_type s2 where 2: "lift (subscript (JObj (metadata c)) (lit ''thread_type'')) (c, tb) = (Inr thread_type, s2)"
    and r2: "bnd (\<lambda>s. lift (subscript (JObj (metadata (fst s))) (lit ''thread_path'')) s) (\<lambda>thread_path.
     bnd (\<lambda>s. on_db (execute_insert sch Conversations
                 [JInt (conv_id (fst s)), title, thread_type, thread_path]) s) (\<lambda>_.
     bnd (\<lambda>s. for_each (map fst (participants (fst s))) (\<lambda>participant.
                 bnd (on_db (saveParticipant sch (conv_id (fst s)) participant True))
                   (set_participant participant)) s) (\<lambda>_.
     (\<lambda>s. save_messages sch RCursor (messages (fst s)) s)))) s2 = (Inr r, (c', tb'))"
    by (rule bnd_ok) auto
  have s2: "s2 = (c, tb)" and tt: "subscript (JObj (metadata c)) (lit ''thread_type'') = Inr thread_type"
    using 2 by (auto simp: lift_def)
  from r2 [unfolded s2]
  obtain thread_path s3 where 3: "lift (subscript (JObj (metadata c)) (lit ''thread_path'')) (c, tb) = (Inr thread_path, s3)"
    and r3: "bnd (\<lambda>s. on_db (execute_insert sch Conversations
                 [JInt (conv_id (fst s)), title, thread_type, thread_path]) s) (\<lambda>_.
     bnd (\<lambda>s. for_each (map fst (participants (fst s))) (\<lambda>participant.
                 bnd (on_db (saveParticipant sch (conv_id (fst s)) participant True))
                   (set_participant participant)) s) (\<lambda>_.
     (\<lambda>s. save_messages sch RCursor (messages (fst s)) s))) s3 = (Inr r, (c', tb'))"
    by (rule bnd_ok) auto
  have s3: "s3 = (c, tb)" and tp: "subscript (JObj (metadata c)) (lit ''thread_path'') = Inr thread_path"
    using 3 by (auto simp: lift_def)
  from r3 [unfolded s3]
  obtain rid s4 where 4: "on_db (execute_insert sch Conversations
                 [JInt (conv_id c), title, thread_type, thread_path]) (c, tb) = (Inr rid, s4)"
    and r4: "bnd (\<lambda>s. for_each (map fst (participants (fst s))) (\<lambda>participant.
                 bnd (on_db (saveParticipant sch (conv_id (fst s)) participant True))
                   (set_participant participant)) s) (\<lambda>_.
     (\<lambda>s. save_messages sch RCursor (messages (fst s)) s)) s4 = (Inr r, (c', tb'))"
    by (rule bnd_ok) auto
  from 4 obtain tb1 where i: "execute_insert sch Conversations
       [JInt (conv_id c), title, thread_type, thread_path] tb = (Inr rid, tb1)"
    and s4: "s4 = (c, tb1)"
    by (auto simp: on_db_def split: prod.splits)
  from r4 [unfolded s4]
  obtain u s5 where 5: "for_each (map fst (participants c)) (\<lambda>participant.
                 bnd (on_db (saveParticipant sch (conv_id c) participant True))
                   (set_participant participant)) (c, tb1) = (Inr u, s5)"
    and r5: "save_messages sch RCursor (messages (fst s5)) s5 = (Inr r, (c', tb'))"
    by (rule bnd_ok) auto
  obtain c2 tb2 where s5: "s5 = (c2, tb2)" by (cases s5)
  show ?thesis using that [OF t tt tp i] 5 r5 unfolding s5 by simp
qed

subsection \<open>Every name a message refers to gets an entry\<close>

lemma triple_assume:
  assumes "b \<Longrightarrow> triple P m Q E"
  shows "triple (\<lambda>s. b \<and> P s) m Q E"
  using assms by (auto simp: triple_def)

lemma known_getParticipantId:
  "triple (\<lambda>s. ids_nonneg s \<and> known A s) (getParticipantId sch n)
     (\<lambda>_ s. ids_nonneg s \<and> known (insert n A) s) (\<lambda>s. True)"
proof (rule getParticipantId_triple)
  fix c tb pid
  assume "ids_nonneg (c, tb) \<and> known A (c, tb)" "map_of (participants c) n = Some pid"
  then show "ids_nonneg (c, tb) \<and> known (insert n A) (c, tb)"
    by (auto simp: known_def dest: map_of_SomeD intro: rev_image_eqI)
next
  fix c tb
  assume "ids_nonneg (c, tb) \<and> known A (c, tb)"
  then show "ids_nonneg (c\<lparr>participants :=
                   dict_set (participants c) n (Some (next_rowid (tb Participants)))\<rparr>,
               tb(Participants := tb Participants @
                 [(next_rowid (tb Participants), [SInt (conv_id c), sql_of n, SInt 0])]))
     \<and> known (insert n A) (c\<lparr>participants :=
                   dict_set (participants c) n (Some (next_rowid (tb Participants)))\<rparr>,
               tb(Participants := tb Participants @
                 [(next_rowid (tb Participants), [SInt (conv_id c), sql_of n, SInt 0])]))"
    using dict_set_keys [of "participants c" n] by (auto simp: known_def ids_nonneg_def)
qed simp

lemma known_other_table:
  assumes "t \<noteq> Messages"
  shows "ids_nonneg (c, tb(t := v)) \<and> known A (c, tb(t := v)) \<longleftrightarrow> ids_nonneg (c, tb) \<and> known A (c, tb)"
  using assms by (simp add: known_def ids_nonneg_def)

lemma known_reactions_loop:
  "triple (\<lambda>s. ids_nonneg s \<and> known B s)
     (for_each rs (\<lambda>reaction.
             bnd (lift (subscript reaction (lit ''actor''))) (\<lambda>actor.
             bnd (getParticipantId sch actor) (\<lambda>user_id.
             bnd (lift (subscript reaction (lit ''reaction''))) (\<lambda>symbol.
             discard (on_db (saveReaction sch mid user_id symbol)))))))
     (\<lambda>_ s. ids_nonneg s \<and> known (B \<union> set (map actor_of rs)) s) (\<lambda>s. True)"
proof (induction rs arbitrary: B)
  case Nil
  show ?case by (simp add: triple_def ret_def)
next
  case (Cons r rs)
  let ?P = "\<lambda>B s. ids_nonneg s \<and> known B s"
  have step: "triple (?P B)
       (bnd (lift (subscript r (lit ''actor''))) (\<lambda>actor.
             bnd (getParticipantId sch actor) (\<lambda>user_id.
             bnd (lift (subscript r (lit ''reaction''))) (\<lambda>symbol.
             discard (on_db (saveReaction sch mid user_id symbol))))))
       (\<lambda>_. ?P (insert (actor_of r) B)) (\<lambda>s. True)"
  proof (rule triple_bnd_lift)
    fix actor assume a: "subscript r (lit ''actor'') = Inr actor"
    then have ao: "actor_of r = actor" by (simp add: actor_of_def)
    show "triple (?P B)
             (bnd (getParticipantId sch actor) (\<lambda>user_id.
             bnd (lift (subscript r (lit ''reaction''))) (\<lambda>symbol.
             discard (on_db (saveReaction sch mid user_id symbol)))))
       (\<lambda>_. ?P (insert (actor_of r) B)) (\<lambda>s. True)"
      unfolding ao
    proof (rule triple_bnd [OF known_getParticipantId])
      fix uid
      show "triple (?P (insert actor B))
             (bnd (lift (subscript r (lit ''reaction''))) (\<lambda>symbol.
             discard (on_db (saveReaction sch mid uid symbol))))
             (\<lambda>_. ?P (insert actor B)) (\<lambda>s. True)"
        by (intro triple_bnd_lift triple_discard saveReaction_triple)
           (simp_all add: known_other_table)
    qed
  qed simp
  have rest: "triple (?P (insert (actor_of r) B))
     (for_each rs (\<lambda>reaction.
             bnd (lift (subscript reaction (lit ''actor''))) (\<lambda>actor.
             bnd (getParticipantId sch actor) (\<lambda>user_id.
             bnd (lift (subscript reaction (lit ''reaction''))) (\<lambda>symbol.
             discard (on_db (saveReaction sch mid user_id symbol)))))))
     (\<lambda>_. ?P (B \<union> set (map actor_of (r # rs)))) (\<lambda>s. True)"
    using Cons.IH [of "insert (actor_of r) B"] by simp
  show ?case by (simp only: for_each.simps) (rule triple_bnd [OF step rest])
qed

lemma known_save_reactions:
  "triple (\<lambda>s. ids_nonneg s \<and> known B s) (save_reactions sch item mid)
     (\<lambda>_ s. ids_nonneg s \<and> known (B \<union> set (map actor_of (reactions_of item))) s) (\<lambda>s. True)"
  unfolding save_reactions_def
proof (rule triple_bnd_lift)
  let ?P = "\<lambda>B s. ids_nonneg s \<and> known B s"
  fix present assume p: "py_in (lit ''reactions'') item = Inr present"
  show "triple (?P B)
     (if present then
         bnd (lift (case subscript item (lit ''reactions'') of
                      Inl e \<Rightarrow> Inl e | Inr v \<Rightarrow> py_iter v)) (\<lambda>reactions.
           for_each reactions (\<lambda>reaction.
             bnd (lift (subscript reaction (lit ''actor''))) (\<lambda>actor.
             bnd (getParticipantId sch actor) (\<lambda>user_id.
             bnd (lift (subscript reaction (lit ''reaction''))) (\<lambda>symbol.
             discard (on_db (saveReaction sch mid user_id symbol)))))))
       else ret ())
     (\<lambda>_. ?P (B \<union> set (map actor_of (reactions_of item)))) (\<lambda>s. True)"
  proof (cases present)
    case False
    then have "reactions_of item = []" using p by (simp add: reactions_of_def)
    then show ?thesis using False by (simp add: triple_def ret_def)
  next
    case True
    have "triple (?P B)
         (bnd (lift (case subscript item (lit ''reactions'') of
                      Inl e \<Rightarrow> Inl e | Inr v \<Rightarrow> py_iter v)) (\<lambda>reactions.
           for_each reactions (\<lambda>reaction.
             bnd (lift (subscript reaction (lit ''actor''))) (\<lambda>actor.
             bnd (getParticipantId sch actor) (\<lambda>user_id.
             bnd (lift (subscript reaction (lit ''reaction''))) (\<lambda>symbol.
             discard (on_db (saveReaction sch mid user_id symbol))))))))
       (\<lambda>_. ?P (B \<union> set (map actor_of (reactions_of item)))) (\<lambda>s. True)"
    proof (rule triple_bnd_lift)
      fix rs
      assume "(case subscript item (lit ''reactions'') of
                      Inl e \<Rightarrow> Inl e | Inr v \<Rightarrow> py_iter v) = Inr rs"
      then have "reactions_of item = rs"
        using p True by (auto simp: reactions_of_def split: sum.splits)
      then show "triple (?P B)
           (for_each rs (\<lambda>reaction.
             bnd (lift (subscript reaction (lit ''actor''))) (\<lambda>actor.
             bnd (getParticipantId sch actor) (\<lambda>user_id.
             bnd (lift (subscript reaction (lit ''reaction''))) (\<lambda>symbol.
             discard (on_db (saveReaction sch mid user_id symbol)))))))
           (\<lambda>_. ?P (B \<union> set (map actor_of (reactions_of item)))) (\<lambda>s. True)"
        using known_reactions_loop [of B rs sch mid] by simp
    qed simp
    then show ?thesis using True by simp
  qed
qed simp

lemma known_saveMessage:
  "triple (\<lambda>s. ids_nonneg s \<and> known A s) (saveMessage sch item)
     (\<lambda>mid s. 0 < mid \<and> ids_nonneg s \<and> known (A \<union> set (referenced item)) s) (\<lambda>s. True)"
proof (rule saveMessage_parts [where
      ?I0.0 = "\<lambda>n sid s. ids_nonneg s \<and> known (insert (sender_of item) A) s"
      and ?I1.0 = "\<lambda>mid s. 0 < mid \<and> ids_nonneg s \<and> known (insert (sender_of item) A) s"
      and ?I2.0 = "\<lambda>mid s. 0 < mid \<and> ids_nonneg s \<and> known (A \<union> set (referenced item)) s"
      and ?I3.0 = "\<lambda>mid s. 0 < mid \<and> ids_nonneg s \<and> known (A \<union> set (referenced item)) s"])
  fix n assume "subscript item (lit ''sender_name'') = Inr n"
  then have "sender_of item = n" by (simp add: sender_of_def)
  then show "triple (\<lambda>s. ids_nonneg s \<and> known A s) (getParticipantId sch n)
     (\<lambda>sid s. ids_nonneg s \<and> known (insert (sender_of item) A) s) (\<lambda>s. True)"
    using known_getParticipantId [of A sch n] by simp
next
  fix content epoch sid ty
  show "triple (\<lambda>s. ids_nonneg s \<and> known (insert (sender_of item) A) s)
          (\<lambda>s. on_db (execute_insert sch Messages
                 [epoch, ty, py_int_or_none sid, JInt (conv_id (fst s)), content]) s)
          (\<lambda>mid s. 0 < mid \<and> ids_nonneg s \<and> known (insert (sender_of item) A) s) (\<lambda>s. True)"
  proof (rule insert_triple_read)
    fix c tb
    assume a: "ids_nonneg (c, tb) \<and> known (insert (sender_of item) A) (c, tb)"
    then have "\<forall>r \<in> set (tb Messages). 0 \<le> fst r" by (simp add: ids_nonneg_def list_all_iff)
    then have "0 < next_rowid (tb Messages)" by (rule next_rowid_positive)
    then show "0 < next_rowid (tb Messages)
       \<and> ids_nonneg (c, tb(Messages := tb Messages @ [(next_rowid (tb Messages),
            map sql_of [epoch, ty, py_int_or_none sid, JInt (conv_id (fst (c, tb))), content])]))
       \<and> known (insert (sender_of item) A) (c, tb(Messages := tb Messages @ [(next_rowid (tb Messages),
            map sql_of [epoch, ty, py_int_or_none sid, JInt (conv_id (fst (c, tb))), content])]))"
      using a by (simp add: ids_nonneg_def known_def)
  qed simp
next
  fix mid
  have eq: "insert (sender_of item) A \<union> set (map actor_of (reactions_of item))
            = A \<union> set (referenced item)"
    by (auto simp: referenced_def)
  have 1: "triple (\<lambda>s. ids_nonneg s \<and> known (insert (sender_of item) A) s) (save_reactions sch item mid)
     (\<lambda>_ s. ids_nonneg s \<and> known (A \<union> set (referenced item)) s) (\<lambda>s. True)"
    using known_save_reactions [of "insert (sender_of item) A" sch item mid] unfolding eq .
  show "triple (\<lambda>s. 0 < mid \<and> ids_nonneg s \<and> known (insert (sender_of item) A) s)
     (save_reactions sch item mid)
     (\<lambda>_ s. 0 < mid \<and> ids_nonneg s \<and> known (A \<union> set (referenced item)) s) (\<lambda>s. True)"
  proof (rule triple_assume)
    assume "0 < mid"
    then show "triple (\<lambda>s. ids_nonneg s \<and> known (insert (sender_of item) A) s)
     (save_reactions sch item mid)
     (\<lambda>_ s. 0 < mid \<and> ids_nonneg s \<and> known (A \<union> set (referenced item)) s) (\<lambda>s. True)"
      by (intro triple_weaken [OF 1]) simp_all
  qed
next
  fix mid :: int
  let ?P = "\<lambda>s. 0 < mid \<and> ids_nonneg s \<and> known (A \<union> set (referenced item)) s"
  show "triple ?P (save_attachements sch item mid) (\<lambda>_. ?P) (\<lambda>s. True)"
  proof (rule save_attachements_inv)
    fix t data assume "t \<in> set attachements"
    then have "t \<noteq> Messages" by (rule attachements_not_Messages)
    then show "triple ?P (on_db (saveAttachement sch t mid data)) (\<lambda>_. ?P) (\<lambda>s. True)"
      by (intro saveAttachement_triple) (simp_all add: known_def ids_nonneg_def)
  qed simp
  show "triple ?P (save_share_sticker sch item mid) (\<lambda>_. ?P) (\<lambda>s. True)"
  proof (rule save_share_sticker_inv)
    fix share
    show "triple ?P (on_db (saveShare sch mid share)) (\<lambda>_. ?P) (\<lambda>s. True)"
      by (rule saveShare_triple) (simp_all add: known_def ids_nonneg_def)
  next
    fix sticker
    show "triple ?P (on_db (saveSticker sch mid sticker)) (\<lambda>_. ?P) (\<lambda>s. True)"
      by (rule saveSticker_triple) (simp_all add: known_def ids_nonneg_def)
  qed simp
qed simp_all

lemma known_save_messages:
  assumes "truthy r"
  shows "triple (\<lambda>s. ids_nonneg s \<and> known A s) (save_messages sch r msgs)
     (\<lambda>_ s. ids_nonneg s \<and> known (A \<union> (\<Union>m \<in> set msgs. set (referenced m))) s) (\<lambda>s. True)"
  using assms
proof (induction msgs arbitrary: r A)
  case Nil
  show ?case by (simp add: triple_def ret_def)
next
  case (Cons m msgs)
  have rest: "\<And>mid. triple (\<lambda>s. 0 < mid \<and> ids_nonneg s \<and> known (A \<union> set (referenced m)) s)
     (save_messages sch (RInt mid) msgs)
     (\<lambda>_ s. ids_nonneg s \<and> known (A \<union> (\<Union>m \<in> set (m # msgs). set (referenced m))) s) (\<lambda>s. True)"
  proof (rule triple_assume)
    fix mid :: int assume "0 < mid"
    then have "truthy (RInt mid)" by simp
    from Cons.IH [OF this, of "A \<union> set (referenced m)"]
    show "triple (\<lambda>s. ids_nonneg s \<and> known (A \<union> set (referenced m)) s)
     (save_messages sch (RInt mid) msgs)
     (\<lambda>_ s. ids_nonneg s \<and> known (A \<union> (\<Union>m \<in> set (m # msgs). set (referenced m))) s) (\<lambda>s. True)"
      by (simp add: Un_assoc)
  qed
  show ?case using Cons.prems triple_bnd [OF known_saveMessage rest] by simp
qed

subsection \<open>The rows that refer to a participant hold the id of its entry\<close>

lemma refers_frame:
  assumes "t' \<noteq> t"
  shows "refers t col names base (c, tb(t' := v)) \<longleftrightarrow> refers t col names base (c, tb)"
  using assms by (simp add: refers_def)

lemma refers_grow:
  assumes "refers t col names base (c, tb)" and "map_of (participants c) n = Some sid"
    and "cols ! col = sql_of (py_int_or_none sid)"
  shows "refers t col (names @ [n]) base (c, tb(t := tb t @ [(rid, cols)]))"
proof -
  from assms(1) obtain rows where r: "tb t = base @ rows"
    and l: "list_all2 (\<lambda>n row. \<exists>sid. snd row ! col = sql_of (py_int_or_none sid)
              \<and> map_of (participants c) n = Some sid) names rows"
    by (auto simp: refers_def)
  have "list_all2 (\<lambda>n row. \<exists>sid. snd row ! col = sql_of (py_int_or_none sid)
              \<and> map_of (participants c) n = Some sid) (names @ [n]) (rows @ [(rid, cols)])"
    using l assms(2,3) by (auto intro!: list_all2_appendI)
  then show ?thesis using r unfolding refers_def by (intro exI [of _ "rows @ [(rid, cols)]"]) simp
qed

lemma refers_getParticipantId:
  assumes "t \<noteq> Participants"
  shows "triple (refers t col names base) (getParticipantId sch n)
     (\<lambda>sid s. refers t col names base s \<and> map_of (participants (fst s)) n = Some sid) (\<lambda>s. True)"
proof (rule getParticipantId_triple)
  fix c tb
  assume a: "refers t col names base (c, tb)" and none: "map_of (participants c) n = None"
  let ?rid = "next_rowid (tb Participants)"
  let ?c = "c\<lparr>participants := dict_set (participants c) n (Some ?rid)\<rparr>"
  let ?tb = "tb(Participants := tb Participants @ [(?rid, [SInt (conv_id c), sql_of n, SInt 0])])"
  from a obtain rows where r: "tb t = base @ rows"
    and l: "list_all2 (\<lambda>n row. \<exists>sid. snd row ! col = sql_of (py_int_or_none sid)
              \<and> map_of (participants c) n = Some sid) names rows"
    by (auto simp: refers_def)
  have "list_all2 (\<lambda>n row. \<exists>sid. snd row ! col = sql_of (py_int_or_none sid)
              \<and> map_of (participants ?c) n = Some sid) names rows"
    by (rule list_all2_mono [OF l]) (use none in \<open>auto simp: map_of_dict_set\<close>)
  then have "refers t col names base (?c, ?tb)"
    using r assms unfolding refers_def by (intro exI [of _ rows]) simp
  then show "refers t col names base (?c, ?tb)
     \<and> map_of (participants (fst (?c, ?tb))) n = Some (Some ?rid)"
    by (simp add: map_of_dict_set)
qed auto

lemma refers_other_parts:
  assumes "\<And>t'. t' \<in> set attachements \<Longrightarrow> t' \<noteq> t" and "t \<noteq> Shares" and "t \<noteq> Stickers"
  shows "triple (refers t col names base) (save_attachements sch item mid)
           (\<lambda>_. refers t col names base) (\<lambda>s. True)"
    and "triple (refers t col names base) (save_share_sticker sch item mid)
           (\<lambda>_. refers t col names base) (\<lambda>s. True)"
proof -
  let ?P = "refers t col names base"
  show "triple ?P (save_attachements sch item mid) (\<lambda>_. ?P) (\<lambda>s. True)"
  proof (rule save_attachements_inv)
    fix t' data assume "t' \<in> set attachements"
    then have "t' \<noteq> t" by (rule assms(1))
    then show "triple ?P (on_db (saveAttachement sch t' mid data)) (\<lambda>_. ?P) (\<lambda>s. True)"
      by (intro saveAttachement_triple) (simp_all add: refers_frame)
  qed simp
  show "triple ?P (save_share_sticker sch item mid) (\<lambda>_. ?P) (\<lambda>s. True)"
  proof (rule save_share_sticker_inv)
    fix share
    show "triple ?P (on_db (saveShare sch mid share)) (\<lambda>_. ?P) (\<lambda>s. True)"
      by (rule saveShare_triple) (use assms(2) in \<open>simp_all add: refers_frame\<close>)
  next
    fix sticker
    show "triple ?P (on_db (saveSticker sch mid sticker)) (\<lambda>_. ?P) (\<lambda>s. True)"
      by (rule saveSticker_triple) (use assms(3) in \<open>simp_all add: refers_frame\<close>)
  qed simp
qed

lemma attachements_cases:
  "t \<in> set attachements \<Longrightarrow> t \<noteq> Messages \<and> t \<noteq> Reactions \<and> t \<noteq> Participants"
  by (auto simp: attachements_def)

lemma senders_saveMessage:
  "triple (refers Messages 2 names base) (saveMessage sch item)
     (\<lambda>_. refers Messages 2 (names @ [sender_of item]) base) (\<lambda>s. True)"
proof (rule saveMessage_parts [where
      ?I0.0 = "\<lambda>n sid s. refers Messages 2 names base s \<and> map_of (participants (fst s)) n = Some sid"
      and ?I1.0 = "\<lambda>mid. refers Messages 2 (names @ [sender_of item]) base"
      and ?I2.0 = "\<lambda>mid. refers Messages 2 (names @ [sender_of item]) base"
      and ?I3.0 = "\<lambda>mid. refers Messages 2 (names @ [sender_of item]) base"])
  fix n
  show "triple (refers Messages 2 names base) (getParticipantId sch n)
     (\<lambda>sid s. refers Messages 2 names base s \<and> map_of (participants (fst s)) n = Some sid) (\<lambda>s. True)"
    by (rule refers_getParticipantId) simp
next
  fix content epoch n sid ty
  assume "subscript item (lit ''sender_name'') = Inr n"
  then have so: "sender_of item = n" by (simp add: sender_of_def)
  show "triple (\<lambda>s. refers Messages 2 names base s \<and> map_of (participants (fst s)) n = Some sid)
          (\<lambda>s. on_db (execute_insert sch Messages
                 [epoch, ty, py_int_or_none sid, JInt (conv_id (fst s)), content]) s)
          (\<lambda>mid. refers Messages 2 (names @ [sender_of item]) base) (\<lambda>s. True)"
    unfolding so
  proof (rule insert_triple_read)
    fix c tb
    assume "refers Messages 2 names base (c, tb) \<and> map_of (participants (fst (c, tb))) n = Some sid"
    then show "refers Messages 2 (names @ [n]) base (c, tb(Messages := tb Messages @ [(next_rowid (tb Messages),
            map sql_of [epoch, ty, py_int_or_none sid, JInt (conv_id (fst (c, tb))), content])]))"
      by (intro refers_grow [where sid = sid]) simp_all
  qed simp
next
  fix mid
  let ?P = "refers Messages 2 (names @ [sender_of item]) base"
  show "triple ?P (save_reactions sch item mid) (\<lambda>_. ?P) (\<lambda>s. True)"
  proof (rule save_reactions_inv)
    fix n
    show "triple ?P (getParticipantId sch n) (\<lambda>_. ?P) (\<lambda>s. True)"
      by (rule triple_weaken [OF refers_getParticipantId [of Messages 2 "names @ [sender_of item]" base sch n]])
         (simp, simp, blast, simp)
  next
    fix uid symb
    show "triple ?P (on_db (saveReaction sch mid uid symb)) (\<lambda>_. ?P) (\<lambda>s. True)"
      by (rule saveReaction_triple) (simp_all add: refers_frame)
  qed simp
  show "triple ?P (save_attachements sch item mid) (\<lambda>_. ?P) (\<lambda>s. True)"
    by (rule refers_other_parts) (auto dest: attachements_cases)
  show "triple ?P (save_share_sticker sch item mid) (\<lambda>_. ?P) (\<lambda>s. True)"
    by (rule refers_other_parts) (auto dest: attachements_cases)
qed simp_all


lemma save_reactions_loop:
  assumes err: "\<And>s. P s \<Longrightarrow> E s" and none: "\<And>s. reactions_of item = [] \<Longrightarrow> P s \<Longrightarrow> Q s"
    and loop: "triple P
           (for_each (reactions_of item) (\<lambda>reaction.
             bnd (lift (subscript reaction (lit ''actor''))) (\<lambda>actor.
             bnd (getParticipantId sch actor) (\<lambda>user_id.
             bnd (lift (subscript reaction (lit ''reaction''))) (\<lambda>symbol.
             discard (on_db (saveReaction sch mid user_id symbol)))))))
           (\<lambda>_. Q) E"
  shows "triple P (save_reactions sch item mid) (\<lambda>_. Q) E"
  unfolding save_reactions_def
proof (rule triple_bnd_lift)
  fix present assume p: "py_in (lit ''reactions'') item = Inr present"
  show "triple P
     (if present then
         bnd (lift (case subscript item (lit ''reactions'') of
                      Inl e \<Rightarrow> Inl e | Inr v \<Rightarrow> py_iter v)) (\<lambda>reactions.
           for_each reactions (\<lambda>reaction.
             bnd (lift (subscript reaction (lit ''actor''))) (\<lambda>actor.
             bnd (getParticipantId sch actor) (\<lambda>user_id.
             bnd (lift (subscript reaction (lit ''reaction''))) (\<lambda>symbol.
             discard (on_db (saveReaction sch mid user_id symbol)))))))
       else ret ())
     (\<lambda>_. Q) E"
  proof (cases present)
    case False
    then have "reactions_of item = []" using p by (simp add: reactions_of_def)
    then show ?thesis using False none by (simp add: triple_def ret_def)
  next
    case True
    have "triple P
         (bnd (lift (case subscript item (lit ''reactions'') of
                      Inl e \<Rightarrow> Inl e | Inr v \<Rightarrow> py_iter v)) (\<lambda>reactions.
           for_each reactions (\<lambda>reaction.
             bnd (lift (subscript reaction (lit ''actor''))) (\<lambda>actor.
             bnd (getParticipantId sch actor) (\<lambda>user_id.
             bnd (lift (subscript reaction (lit ''reaction''))) (\<lambda>symbol.
             discard (on_db (saveReaction sch mid user_id symbol))))))))
       (\<lambda>_. Q) E"
    proof (rule triple_bnd_lift)
      fix rs
      assume "(case subscript item (lit ''reactions'') of
                      Inl e \<Rightarrow> Inl e | Inr v \<Rightarrow> py_iter v) = Inr rs"
      then have "reactions_of item = rs"
        using p True by (auto simp: reactions_of_def split: sum.splits)
      then show "triple P
           (for_each rs (\<lambda>reaction.
             bnd (lift (subscript reaction (lit ''actor''))) (\<lambda>actor.
             bnd (getParticipantId sch actor) (\<lambda>user_id.
             bnd (lift (subscript reaction (lit ''reaction''))) (\<lambda>symbol.
             discard (on_db (saveReaction sch mid user_id symbol)))))))
           (\<lambda>_. Q) E"
        using loop by simp
    qed (rule err)
    then show ?thesis using True by simp
  qed
qed (rule err)

lemma actors_loop:
  "triple (refers Reactions 1 names base)
     (for_each rs (\<lambda>reaction.
             bnd (lift (subscript reaction (lit ''actor''))) (\<lambda>actor.
             bnd (getParticipantId sch actor) (\<lambda>user_id.
             bnd (lift (subscript reaction (lit ''reaction''))) (\<lambda>symbol.
             discard (on_db (saveReaction sch mid user_id symbol)))))))
     (\<lambda>_. refers Reactions 1 (names @ map actor_of rs) base) (\<lambda>s. True)"
proof (induction rs arbitrary: names)
  case Nil
  show ?case by (simp add: triple_def ret_def)
next
  case (Cons r rs)
  let ?P = "\<lambda>names. refers Reactions 1 names base"
  have step: "triple (?P names)
       (bnd (lift (subscript r (lit ''actor''))) (\<lambda>actor.
             bnd (getParticipantId sch actor) (\<lambda>user_id.
             bnd (lift (subscript r (lit ''reaction''))) (\<lambda>symbol.
             discard (on_db (saveReaction sch mid user_id symbol))))))
       (\<lambda>_. ?P (names @ [actor_of r])) (\<lambda>s. True)"
  proof (rule triple_bnd_lift)
    fix actor assume a: "subscript r (lit ''actor'') = Inr actor"
    then have ao: "actor_of r = actor" by (simp add: actor_of_def)
    show "triple (?P names)
             (bnd (getParticipantId sch actor) (\<lambda>user_id.
             bnd (lift (subscript r (lit ''reaction''))) (\<lambda>symbol.
             discard (on_db (saveReaction sch mid user_id symbol)))))
       (\<lambda>_. ?P (names @ [actor_of r])) (\<lambda>s. True)"
      unfolding ao
    proof (rule triple_bnd [OF refers_getParticipantId])
      fix uid
      show "triple (\<lambda>s. ?P names s \<and> map_of (participants (fst s)) actor = Some uid)
             (bnd (lift (subscript r (lit ''reaction''))) (\<lambda>symbol.
             discard (on_db (saveReaction sch mid uid symbol))))
             (\<lambda>_. ?P (names @ [actor])) (\<lambda>s. True)"
      proof (intro triple_bnd_lift triple_discard saveReaction_triple)
        fix symbol c tb
        assume "refers Reactions 1 names base (c, tb) \<and> map_of (participants (fst (c, tb))) actor = Some uid"
        then show "refers Reactions 1 (names @ [actor]) base
           (c, tb(Reactions := tb Reactions @ [(next_rowid (tb Reactions),
                   [SInt mid, sql_of (py_int_or_none uid), sql_of symbol])]))"
          by (intro refers_grow [where sid = uid]) simp_all
      qed simp_all
    qed simp
  qed simp
  have rest: "triple (?P (names @ [actor_of r]))
     (for_each rs (\<lambda>reaction.
             bnd (lift (subscript reaction (lit ''actor''))) (\<lambda>actor.
             bnd (getParticipantId sch actor) (\<lambda>user_id.
             bnd (lift (subscript reaction (lit ''reaction''))) (\<lambda>symbol.
             discard (on_db (saveReaction sch mid user_id symbol)))))))
     (\<lambda>_. ?P (names @ map actor_of (r # rs))) (\<lambda>s. True)"
    using Cons.IH [of "names @ [actor_of r]"] by simp
  show ?case by (simp only: for_each.simps) (rule triple_bnd [OF step rest])
qed

lemma actors_saveMessage:
  "triple (refers Reactions 1 names base) (saveMessage sch item)
     (\<lambda>_. refers Reactions 1 (names @ map actor_of (reactions_of item)) base) (\<lambda>s. True)"
proof (rule saveMessage_parts [where
      ?I0.0 = "\<lambda>n sid. refers Reactions 1 names base"
      and ?I1.0 = "\<lambda>mid. refers Reactions 1 names base"
      and ?I2.0 = "\<lambda>mid. refers Reactions 1 (names @ map actor_of (reactions_of item)) base"
      and ?I3.0 = "\<lambda>mid. refers Reactions 1 (names @ map actor_of (reactions_of item)) base"])
  fix n
  show "triple (refers Reactions 1 names base) (getParticipantId sch n)
     (\<lambda>sid. refers Reactions 1 names base) (\<lambda>s. True)"
    by (rule triple_weaken [OF refers_getParticipantId [of Reactions 1 names base sch n]])
       (simp, simp, blast, simp)
next
  fix content epoch n sid ty
  show "triple (refers Reactions 1 names base)
          (\<lambda>s. on_db (execute_insert sch Messages
                 [epoch, ty, py_int_or_none sid, JInt (conv_id (fst s)), content]) s)
          (\<lambda>mid. refers Reactions 1 names base) (\<lambda>s. True)"
    by (rule insert_triple_read) (simp_all add: refers_frame)
next
  fix mid
  show "triple (refers Reactions 1 names base) (save_reactions sch item mid)
     (\<lambda>_. refers Reactions 1 (names @ map actor_of (reactions_of item)) base) (\<lambda>s. True)"
    by (rule save_reactions_loop [OF _ _ actors_loop]) simp_all
  let ?P = "refers Reactions 1 (names @ map actor_of (reactions_of item)) base"
  show "triple ?P (save_attachements sch item mid) (\<lambda>_. ?P) (\<lambda>s. True)"
    by (rule refers_other_parts) (auto dest: attachements_cases)
  show "triple ?P (save_share_sticker sch item mid) (\<lambda>_. ?P) (\<lambda>s. True)"
    by (rule refers_other_parts) (auto dest: attachements_cases)
qed simp_all

lemma refers_save_messages:
  assumes step: "\<And>names item. triple (\<lambda>s. ids_nonneg s \<and> refers t col names base s) (saveMessage sch item)
     (\<lambda>mid s. 0 < mid \<and> ids_nonneg s \<and> refers t col (names @ f item) base s) (\<lambda>s. True)"
    and "truthy r"
  shows "triple (\<lambda>s. ids_nonneg s \<and> refers t col names base s) (save_messages sch r msgs)
     (\<lambda>_ s. ids_nonneg s \<and> refers t col (names @ concat (map f msgs)) base s) (\<lambda>s. True)"
  using assms(2)
proof (induction msgs arbitrary: r names)
  case Nil
  show ?case by (simp add: triple_def ret_def)
next
  case (Cons m msgs)
  have rest: "\<And>mid. triple (\<lambda>s. 0 < mid \<and> ids_nonneg s \<and> refers t col (names @ f m) base s)
     (save_messages sch (RInt mid) msgs)
     (\<lambda>_ s. ids_nonneg s \<and> refers t col (names @ concat (map f (m # msgs))) base s) (\<lambda>s. True)"
  proof (rule triple_assume)
    fix mid :: int assume "0 < mid"
    then have "truthy (RInt mid)" by simp
    from Cons.IH [OF this, of "names @ f m"]
    show "triple (\<lambda>s. ids_nonneg s \<and> refers t col (names @ f m) base s)
     (save_messages sch (RInt mid) msgs)
     (\<lambda>_ s. ids_nonneg s \<and> refers t col (names @ concat (map f (m # msgs))) base s) (\<lambda>s. True)"
      by simp
  qed
  show ?case using Cons.prems triple_bnd [OF step rest] by simp
qed

lemma positive_saveMessage:
  "triple ids_nonneg (saveMessage sch item) (\<lambda>mid s. 0 < mid \<and> ids_nonneg s) (\<lambda>s. True)"
  by (rule triple_weaken [OF known_saveMessage [of "{}" sch item]]) (simp_all add: known_def)

lemma senders_save_messages:
  assumes "truthy r"
  shows "triple (\<lambda>s. ids_nonneg s \<and> refers Messages 2 [] base s) (save_messages sch r msgs)
     (\<lambda>_ s. ids_nonneg s \<and> refers Messages 2 (map sender_of msgs) base s) (\<lambda>s. True)"
proof -
  have "triple (\<lambda>s. ids_nonneg s \<and> refers Messages 2 [] base s) (save_messages sch r msgs)
     (\<lambda>_ s. ids_nonneg s \<and> refers Messages 2 ([] @ concat (map (\<lambda>m. [sender_of m]) msgs)) base s) (\<lambda>s. True)"
  proof (rule refers_save_messages [OF _ assms])
    fix names item
    show "triple (\<lambda>s. ids_nonneg s \<and> refers Messages 2 names base s) (saveMessage sch item)
       (\<lambda>mid s. 0 < mid \<and> ids_nonneg s \<and> refers Messages 2 (names @ [sender_of item]) base s) (\<lambda>s. True)"
      by (rule triple_weaken [OF triple_conj [OF positive_saveMessage senders_saveMessage]]) simp_all
  qed
  moreover have "concat (map (\<lambda>m. [sender_of m]) msgs) = map sender_of msgs"
    by (induction msgs) simp_all
  ultimately show ?thesis by simp
qed

lemma actors_save_messages:
  assumes "truthy r"
  shows "triple (\<lambda>s. ids_nonneg s \<and> refers Reactions 1 [] base s) (save_messages sch r msgs)
     (\<lambda>_ s. ids_nonneg s \<and> refers Reactions 1 (concat (map (\<lambda>m. map actor_of (reactions_of m)) msgs)) base s)
     (\<lambda>s. True)"
proof -
  have "triple (\<lambda>s. ids_nonneg s \<and> refers Reactions 1 [] base s) (save_messages sch r msgs)
     (\<lambda>_ s. ids_nonneg s \<and> refers Reactions 1 ([] @ concat (map (\<lambda>m. map actor_of (reactions_of m)) msgs)) base s)
     (\<lambda>s. True)"
  proof (rule refers_save_messages [OF _ assms])
    fix names item
    show "triple (\<lambda>s. ids_nonneg s \<and> refers Reactions 1 names base s) (saveMessage sch item)
       (\<lambda>mid s. 0 < mid \<and> ids_nonneg s \<and> refers Reactions 1 (names @ map actor_of (reactions_of item)) base s)
       (\<lambda>s. True)"
      by (rule triple_weaken [OF triple_conj [OF positive_saveMessage actors_saveMessage]]) simp_all
  qed
  then show ?thesis by simp
qed

subsection \<open>One id for every name\<close>

lemma getParticipantId_known:
  "hashable n \<Longrightarrow> map_of (participants c) n = Some pid \<Longrightarrow>
     getParticipantId sch n (c, tb) = (Inr pid, (c, tb))"
  by (simp add: getParticipantId_def)

lemma save_messages_frame:
  assumes "\<And>c tb ps v. F (c, tb) \<Longrightarrow> F (c\<lparr>participants := ps\<rparr>, tb)"
    and "\<And>c tb t rows. F (c, tb) \<Longrightarrow> t \<noteq> keep \<Longrightarrow> F (c, tb(t := rows))"
    and "keep \<notin> set attachements" and "keep \<noteq> Participants" and "keep \<noteq> Messages"
    and "keep \<noteq> Reactions" and "keep \<noteq> Shares" and "keep \<noteq> Stickers"
  shows "triple F (save_messages sch r msgs) (\<lambda>_. F) F"
proof (rule save_messages_inv, rule saveMessage_inv)
  fix n
  show "triple F (getParticipantId sch n) (\<lambda>_. F) F"
    by (rule getParticipantId_triple) (use assms in auto)
  then show "triple F (getParticipantId sch n) (\<lambda>_. F) F" .
next
  fix content epoch sid ty
  show "triple F (\<lambda>s. on_db (execute_insert sch Messages
                 [epoch, ty, py_int_or_none sid, JInt (conv_id (fst s)), content]) s)
          (\<lambda>_. F) F"
    by (rule insert_triple_read) (use assms in auto)
next
  fix mid uid symb
  show "triple F (on_db (saveReaction sch mid uid symb)) (\<lambda>_. F) F"
    by (rule saveReaction_triple) (use assms in auto)
next
  fix mid t data assume "t \<in> set attachements"
  then have "t \<noteq> keep" using assms(3) by auto
  then show "triple F (on_db (saveAttachement sch t mid data)) (\<lambda>_. F) F"
    by (intro saveAttachement_triple) (use assms in auto)
next
  fix mid share
  show "triple F (on_db (saveShare sch mid share)) (\<lambda>_. F) F"
    by (rule saveShare_triple) (use assms in auto)
next
  fix mid sticker
  show "triple F (on_db (saveSticker sch mid sticker)) (\<lambda>_. F) F"
    by (rule saveSticker_triple) (use assms in auto)
qed simp_all

lemma saveConversation_stages:
  assumes run: "saveConversation sch (c, tb) = (Inr r, (c', tb'))"
    and d: "distinct (map fst (participants c))"
  obtains title thread_type thread_path rid c2 tb2 where
    "subscript (JObj (metadata c)) (lit ''title'') = Inr title"
    "subscript (JObj (metadata c)) (lit ''thread_type'') = Inr thread_type"
    "subscript (JObj (metadata c)) (lit ''thread_path'') = Inr thread_path"
    "tb2 Conversations = tb Conversations @
       [(next_rowid (tb Conversations),
         [SInt (conv_id c), sql_of title, sql_of thread_type, sql_of thread_path])]"
    "tb2 Messages = tb Messages" "tb2 Reactions = tb Reactions"
    "messages c2 = messages c"
    "linked (conv_id c) (map fst (participants c)) (tb Participants) (c2, tb2)"
    "save_messages sch RCursor (messages c) (c2, tb2) = (Inr r, (c', tb'))"
proof -
  from saveConversation_ok [OF run]
  obtain title thread_type thread_path rid tb1 c2 tb2 where
    t: "subscript (JObj (metadata c)) (lit ''title'') = Inr title"
      "subscript (JObj (metadata c)) (lit ''thread_type'') = Inr thread_type"
      "subscript (JObj (metadata c)) (lit ''thread_path'') = Inr thread_path"
    and i: "execute_insert sch Conversations [JInt (conv_id c), title, thread_type, thread_path] tb
       = (Inr rid, tb1)"
    and l: "for_each (map fst (participants c)) (\<lambda>participant.
        bnd (on_db (saveParticipant sch (conv_id c) participant True))
          (set_participant participant)) (c, tb1) = (Inr (), (c2, tb2))"
    and m: "save_messages sch RCursor (messages c2) (c2, tb2) = (Inr r, (c', tb'))"
    by blast
  let ?roster = "map fst (participants c)"
  have tb1: "tb1 = tb(Conversations := tb Conversations @
       [(next_rowid (tb Conversations),
         [SInt (conv_id c), sql_of title, sql_of thread_type, sql_of thread_path])])"
    using execute_insert_ok(1,2) [OF i] by simp
  let ?F = "\<lambda>s. messages (fst s) = messages c \<and> snd s Messages = tb Messages
      \<and> snd s Reactions = tb Reactions \<and> snd s Conversations = tb1 Conversations"
  have "triple ?F (for_each ?roster (\<lambda>n. bnd (on_db (saveParticipant sch (conv_id c) n True))
          (set_participant n))) (\<lambda>_. ?F) ?F"
    by (rule roster_frame) simp
  from tripleD_ok [OF this _ l]
  have f: "messages c2 = messages c" "tb2 Messages = tb Messages" "tb2 Reactions = tb Reactions"
    "tb2 Conversations = tb1 Conversations"
    by (simp_all add: tb1)
  have "roster_inv (conv_id c) ?roster (tb Participants) [] ?roster (c, tb1)"
    unfolding roster_inv_def
    by (intro exI [of _ "[]"] exI [of _ "participants c"]) (simp add: tb1)
  from tripleD_ok [OF roster_loop [of "[]" ?roster ?roster "conv_id c" "tb Participants" sch] this l] d
  have "roster_inv (conv_id c) ?roster (tb Participants) ?roster [] (c2, tb2)" by simp
  then have lk: "linked (conv_id c) ?roster (tb Participants) (c2, tb2)"
    using d by (rule roster_inv_linked)
  show ?thesis
    using that [OF t _ f(2,3,1) lk] m f(4) unfolding f(1) tb1 by simp
qed


text \<open>
  Claim C4.  When \<open>_saveConversation\<close> returns, for a conversation whose participant map
  has no name twice and a \<open>messages\<close> table without negative rowids: the participant map
  and the rows written to \<open>participants\<close> go together, one row for each name of the map,
  under an id that no other entry and no older row has, marked current exactly for the
  names of the roster; every name of the roster, every sender and every reaction actor of
  the messages is a name of the map; the row of each message holds the id of the entry of
  its sender and the row of each reaction the id of the entry of its actor, the same id
  wherever the name occurs; and asking again for a name of the map returns the id of its
  entry and writes nothing.
\<close>

theorem saveConversation_one_id_per_name:
  assumes "saveConversation sch (c, tb) = (Inr r, (c', tb'))"
    and "distinct (map fst (participants c))"
    and "ids_nonneg (c, tb)"
  shows "linked (conv_id c) (map fst (participants c)) (tb Participants) (c', tb')
     \<and> known (set (map fst (participants c)) \<union> (\<Union>m \<in> set (messages c). set (referenced m))) (c', tb')
     \<and> refers Messages 2 (map sender_of (messages c)) (tb Messages) (c', tb')
     \<and> refers Reactions 1 (concat (map (\<lambda>m. map actor_of (reactions_of m)) (messages c)))
          (tb Reactions) (c', tb')
     \<and> (\<forall>n pid. map_of (participants c') n = Some pid \<longrightarrow>
           getParticipantId sch n (c', tb') = (Inr pid, (c', tb')))"
proof -
  let ?roster = "map fst (participants c)"
  from saveConversation_stages [OF assms(1,2)]
  obtain c2 tb2 where f: "tb2 Messages = tb Messages" "tb2 Reactions = tb Reactions"
    and lk: "linked (conv_id c) ?roster (tb Participants) (c2, tb2)"
    and m: "save_messages sch RCursor (messages c) (c2, tb2) = (Inr r, (c', tb'))"
    by metis
  have nn: "ids_nonneg (c2, tb2)" using assms(3) f by (simp add: ids_nonneg_def)
  have 1: "linked (conv_id c) ?roster (tb Participants) (c', tb')"
    by (rule tripleD_ok [OF save_messages_inv [OF linked_saveMessage] lk m])
  have k: "known (set ?roster) (c2, tb2)" using lk by (simp add: linked_def known_def)
  have t: "truthy RCursor" by simp
  from tripleD_ok [OF known_save_messages [OF t, of "set ?roster" sch "messages c"] _ m] nn k
  have 2: "known (set ?roster \<union> (\<Union>m \<in> set (messages c). set (referenced m))) (c', tb')"
    by simp
  have "refers Messages 2 [] (tb Messages) (c2, tb2)" using f by (simp add: refers_def)
  from tripleD_ok [OF senders_save_messages [OF t, of "tb Messages" sch "messages c"] _ m] nn this
  have 3: "refers Messages 2 (map sender_of (messages c)) (tb Messages) (c', tb')" by simp
  have "refers Reactions 1 [] (tb Reactions) (c2, tb2)" using f by (simp add: refers_def)
  from tripleD_ok [OF actors_save_messages [OF t, of "tb Reactions" sch "messages c"] _ m] nn this
  have 4: "refers Reactions 1 (concat (map (\<lambda>m. map actor_of (reactions_of m)) (messages c)))
          (tb Reactions) (c', tb')" by simp
  have 5: "\<forall>n pid. map_of (participants c') n = Some pid \<longrightarrow>
           getParticipantId sch n (c', tb') = (Inr pid, (c', tb'))"
  proof (intro allI impI)
    fix n pid assume s: "map_of (participants c') n = Some pid"
    then have "(n, pid) \<in> set (participants c')" by (rule map_of_SomeD)
    then have "hashable n" using 1 by (auto simp: linked_def list_all_iff)
    then show "getParticipantId sch n (c', tb') = (Inr pid, (c', tb'))"
      using s by (rule getParticipantId_known)
  qed
  show ?thesis using 1 2 3 4 5 by blast
qed

lemma example_conversation_run:
  "saveConversation no_constraints
      (example_conversation [example_message1, example_message2] 2, empty_tables)
     = (Inr (RInt 2), (example_saved, example_tables))"
  by (simp add: saveConversation_def set_participant_def run_simps example_message1_def
      example_message2_def example_conversation_def example_metadata_def no_constraints_def
      empty_tables_def utf8_encode_cp_def example_saved_def example_tables_def fun_upd_twist)


theorem saveConversation_one_id_per_name_witness:
  "saveConversation no_constraints
      (example_conversation [example_message1, example_message2] 2, empty_tables)
     = (Inr (RInt 2), (example_saved, example_tables))
   \<and> distinct (map fst (participants (example_conversation [example_message1, example_message2] 2)))
   \<and> ids_nonneg (example_conversation [example_message1, example_message2] 2, empty_tables)
   \<and> linked 0 [JStr (lit ''Alice''), JStr (lit ''Bob'')] [] (example_saved, example_tables)
   \<and> known {JStr (lit ''Alice''), JStr (lit ''Bob''), JStr (lit ''Carol'')}
        (example_saved, example_tables)
   \<and> refers Messages 2 [JStr (lit ''Alice''), JStr (lit ''Bob'')] [] (example_saved, example_tables)
   \<and> refers Reactions 1 [JStr (lit ''Carol'')] [] (example_saved, example_tables)
   \<and> getParticipantId no_constraints (JStr (lit ''Carol'')) (example_saved, example_tables)
       = (Inr (Some 3), (example_saved, example_tables))"
proof -
  let ?c = "example_conversation [example_message1, example_message2] 2"
  have d: "distinct (map fst (participants ?c))" by (simp add: example_conversation_def)
  have n: "ids_nonneg (?c, empty_tables)" by (simp add: ids_nonneg_def empty_tables_def)
  have p: "conv_id ?c = 0" "map fst (participants ?c) = [JStr (lit ''Alice''), JStr (lit ''Bob'')]"
    "messages ?c = [example_message1, example_message2]"
    by (simp_all add: example_conversation_def)
  have s: "sender_of example_message1 = JStr (lit ''Alice'')"
    "sender_of example_message2 = JStr (lit ''Bob'')"
    by (simp_all add: sender_of_def example_message1_def example_message2_def)
  have a: "map actor_of (reactions_of example_message1) = [JStr (lit ''Carol'')]"
    "map actor_of (reactions_of example_message2) = []"
    by (simp_all add: actor_of_def reactions_of_def example_message1_def example_message2_def)
  have k: "map_of (participants example_saved) (JStr (lit ''Carol'')) = Some (Some 3)"
    by (simp add: example_saved_def)
  have e: "set (map fst (participants ?c)) \<union> (\<Union>m \<in> set (messages ?c). set (referenced m))
      = {JStr (lit ''Alice''), JStr (lit ''Bob''), JStr (lit ''Carol'')}"
  proof -
    have r: "set (referenced example_message1) = {JStr (lit ''Alice''), JStr (lit ''Carol'')}"
      "set (referenced example_message2) = {JStr (lit ''Bob'')}"
      unfolding referenced_def s a by simp_all
    show ?thesis unfolding p by (simp add: r) blast
  qed
  have f: "concat (map (\<lambda>m. map actor_of (reactions_of m)) (messages ?c)) = [JStr (lit ''Carol'')]"
    "map sender_of (messages ?c) = [JStr (lit ''Alice''), JStr (lit ''Bob'')]"
    unfolding p by (simp_all add: s a)
  have t: "empty_tables Participants = []" "empty_tables Messages = []" "empty_tables Reactions = []"
    by (simp_all add: empty_tables_def)
  note saveConversation_one_id_per_name [OF example_conversation_run d n, unfolded e f t]
  then have "linked 0 [JStr (lit ''Alice''), JStr (lit ''Bob'')] [] (example_saved, example_tables)
   \<and> known {JStr (lit ''Alice''), JStr (lit ''Bob''), JStr (lit ''Carol'')}
        (example_saved, example_tables)
   \<and> refers Messages 2 [JStr (lit ''Alice''), JStr (lit ''Bob'')] [] (example_saved, example_tables)
   \<and> refers Reactions 1 [JStr (lit ''Carol'')] [] (example_saved, example_tables)
   \<and> (\<forall>n pid. map_of (participants example_saved) n = Some pid \<longrightarrow>
           getParticipantId no_constraints n (example_saved, example_tables)
             = (Inr pid, (example_saved, example_tables)))"
    unfolding p(1,2) .
  then show ?thesis
    using example_conversation_run d n k by blast
qed

end
